theory Spec2Isabelle
  imports Complex_Main "HOL-Library.Word" "HOL-Library.Char_ord" "HOL-Library.List_Lexorder"
begin

section \<open>Errors\<close>

text \<open>
  The kinds of \<^verbatim>\<open>csv.ParseError\<close> that \<^verbatim>\<open>encoding/csv\<close> reports with its default
  settings. The line and column carried by the Go error value are left out: no caller in
  \<^verbatim>\<open>main.go\<close> inspects them.
\<close>

datatype csv_err = ErrBareQuote | ErrQuote | ErrFieldCount

text \<open>
  Every Go \<^verbatim>\<open>error\<close> value that \<^verbatim>\<open>CsvToSlice\<close> or \<^verbatim>\<open>ConnectAIModel\<close> can return.
  Errors built in \<^verbatim>\<open>main.go\<close> keep their arguments; errors handed through from the
  standard library keep the library's message as an opaque string.
\<close>

datatype error =
    CsvParseError csv_err
  | NoDataFound
  | MarshalError string
  | TransportError string
  | DecodeError string
  | StatusError string string
  | MaxRetries

fun Error :: "error \<Rightarrow> string" where
  "Error (CsvParseError ErrBareQuote) = ''bare '' @ [CHR 0x22] @ '' in non-quoted-field''"
| "Error (CsvParseError ErrQuote) = ''extraneous or missing '' @ [CHR 0x22] @ '' in quoted-field''"
| "Error (CsvParseError ErrFieldCount) = ''wrong number of fields''"
| "Error NoDataFound = ''no data found''"
| "Error (MarshalError m) = m"
| "Error (TransportError m) = m"
| "Error (DecodeError m) = m"
| "Error (StatusError status body) =
     ''failed to connect to AI model, status: '' @ status @ '', response: '' @ body"
| "Error MaxRetries = ''max retries reached, failed to connect to AI model''"

section \<open>The CSV reader used by CsvToSlice\<close>

text \<open>
  \<^verbatim>\<open>CsvToSlice\<close> calls \<^verbatim>\<open>csv.NewReader(strings.NewReader(data)).ReadAll()\<close>. The reader
  is modelled on bytes with the settings \<^verbatim>\<open>NewReader\<close> leaves in place: comma as the
  delimiter, no comment character, no lazy quotes, no trimming of leading space. The one
  setting kept as a field is \<^verbatim>\<open>FieldsPerRecord\<close>, because \<^verbatim>\<open>readRecord\<close> updates it:
  \<^verbatim>\<open>NewReader\<close> leaves it at 0, the first record sets it to its own field count, and
  every later record must have that many fields.
\<close>

definition Comma :: char where "Comma = CHR '',''"
definition Quote :: char where "Quote = CHR 0x22"
definition NL :: char where "NL = CHR 0x0A"
definition CR :: char where "CR = CHR 0x0D"

definition lengthNL :: "string \<Rightarrow> nat" where
  "lengthNL b = (if b \<noteq> [] \<and> last b = NL then 1 else 0)"

definition IndexByte :: "string \<Rightarrow> char \<Rightarrow> nat option" where
  "IndexByte b c = (if c \<in> set b then Some (length (takeWhile (\<lambda>x. x \<noteq> c) b)) else None)"

text \<open>
  \<^verbatim>\<open>readLine\<close>: the next line with its newline, \<^verbatim>\<open>None\<close> at end of input. A final line
  without newline loses a trailing carriage return; a line ending in CR LF ends in LF.
\<close>

definition readLine :: "string \<Rightarrow> (string \<times> string) option" where
  "readLine inp =
     (if inp = [] then None
      else case IndexByte inp NL of
        None \<Rightarrow> Some (if last inp = CR then butlast inp else inp, [])
      | Some i \<Rightarrow>
          (let line = take (i + 1) inp; n = length line
           in Some (if n \<ge> 2 \<and> line ! (n - 2) = CR then take (n - 2) line @ [NL] else line,
                    drop (i + 1) inp)))"

lemma IndexByte_less: "IndexByte b c = Some i \<Longrightarrow> i < length b"
proof -
  assume "IndexByte b c = Some i"
  then have c: "c \<in> set b" and i: "i = length (takeWhile (\<lambda>x. x \<noteq> c) b)"
    by (auto simp: IndexByte_def split: if_splits)
  have "length (takeWhile (\<lambda>x. x \<noteq> c) b) \<noteq> length b"
    using c by (induction b) auto
  moreover have "length (takeWhile (\<lambda>x. x \<noteq> c) b) \<le> length b"
    by (rule length_takeWhile_le)
  ultimately show ?thesis using i by simp
qed

lemma IndexByte_less': "Some i = IndexByte b c \<Longrightarrow> i < length b"
  by (rule IndexByte_less) simp

lemma readLine_shorter:
  "readLine inp = Some (line, rest) \<Longrightarrow>
     length rest < length inp \<and> length line + length rest \<le> length inp"
  by (auto simp: readLine_def Let_def split: if_splits option.splits dest: IndexByte_less)

text \<open>The first loop of \<^verbatim>\<open>readRecord\<close>: skip empty lines, stop at end of input.\<close>

function nextLine :: "string \<Rightarrow> (string \<times> string) option" where
  "nextLine inp =
     (case readLine inp of
        None \<Rightarrow> None
      | Some (line, rest) \<Rightarrow>
          if length line = lengthNL line then nextLine rest else Some (line, rest))"
  by pat_completeness auto
termination
  by (relation "measure length") (auto dest: readLine_shorter)

declare nextLine.simps [simp del]

text \<open>
  The \<^verbatim>\<open>parseField\<close> loop of \<^verbatim>\<open>readRecord\<close>. \<open>parseField line rest fields\<close> is at the
  start of a field; \<open>parseQuoted line rest buf fields\<close> is inside a quoted field whose
  text so far is \<open>buf\<close>. \<open>line\<close> is the unread part of the current line, \<open>rest\<close> the
  input after it; a quoted field may run over several lines. The result is the record's
  fields and the input left.
\<close>

function parseField :: "string \<Rightarrow> string \<Rightarrow> string list \<Rightarrow> csv_err + (string list \<times> string)"
  and parseQuoted ::
    "string \<Rightarrow> string \<Rightarrow> string \<Rightarrow> string list \<Rightarrow> csv_err + (string list \<times> string)"
where
  "parseField line rest fields =
     (if line = [] \<or> hd line \<noteq> Quote then
        (let i = IndexByte line Comma;
             field = (case i of Some k \<Rightarrow> take k line
                      | None \<Rightarrow> take (length line - lengthNL line) line)
         in if Quote \<in> set field then Inl ErrBareQuote
            else case i of
                   Some k \<Rightarrow> parseField (drop (k + 1) line) rest (fields @ [field])
                 | None \<Rightarrow> Inr (fields @ [field], rest))
      else parseQuoted (tl line) rest [] fields)"
| "parseQuoted line rest buf fields =
     (case IndexByte line Quote of
        Some i \<Rightarrow>
          (let buf' = buf @ take i line; line' = drop (i + 1) line
           in if line' \<noteq> [] \<and> hd line' = Quote
                then parseQuoted (tl line') rest (buf' @ [Quote]) fields
              else if line' \<noteq> [] \<and> hd line' = Comma
                then parseField (tl line') rest (fields @ [buf'])
              else if lengthNL line' = length line' then Inr (fields @ [buf'], rest)
              else Inl ErrQuote)
      | None \<Rightarrow>
          if line \<noteq> [] then
            (case readLine rest of
               Some (line2, rest2) \<Rightarrow> parseQuoted line2 rest2 (buf @ line) fields
             | None \<Rightarrow> parseQuoted [] [] (buf @ line) fields)
          else Inl ErrQuote)"
  by pat_completeness auto
termination
  apply (relation "measure (\<lambda>x. case x of
            Inl (line, rest, fields) \<Rightarrow> length line + length rest
          | Inr (line, rest, buf, fields) \<Rightarrow> length line + length rest)")
  apply (auto dest!: readLine_shorter IndexByte_less IndexByte_less')
  subgoal for line rest a b by (cases line) auto
  done

declare parseField.simps [simp del] parseQuoted.simps [simp del]

record Reader =
  FieldsPerRecord :: int
  input :: string

definition NewReader :: "string \<Rightarrow> Reader" where
  "NewReader data = \<lparr>FieldsPerRecord = 0, input = data\<rparr>"

text \<open>
  \<^verbatim>\<open>readRecord\<close>: \<open>Inr None\<close> is \<^verbatim>\<open>io.EOF\<close>. After the fields are parsed the field count
  is checked against a positive \<^verbatim>\<open>FieldsPerRecord\<close>, and a \<^verbatim>\<open>FieldsPerRecord\<close> of 0 is
  set to the count of this record; a negative one switches the check off.
\<close>

definition readRecord :: "Reader \<Rightarrow> csv_err + (string list \<times> Reader) option" where
  "readRecord r =
     (case nextLine (input r) of
        None \<Rightarrow> Inr None
      | Some (line, rest) \<Rightarrow>
          (case parseField line rest [] of
             Inl e \<Rightarrow> Inl e
           | Inr (dst, rest') \<Rightarrow>
               if FieldsPerRecord r > 0 then
                 (if int (length dst) \<noteq> FieldsPerRecord r then Inl ErrFieldCount
                  else Inr (Some (dst, r\<lparr>input := rest'\<rparr>)))
               else if FieldsPerRecord r = 0 then
                 Inr (Some (dst, r\<lparr>FieldsPerRecord := int (length dst), input := rest'\<rparr>))
               else Inr (Some (dst, r\<lparr>input := rest'\<rparr>))))"

lemma nextLine_shorter:
  "nextLine inp = Some (line, rest) \<Longrightarrow> length rest < length inp"
proof (induction inp rule: nextLine.induct)
  case (1 inp)
  show ?case
  proof (cases "readLine inp")
    case None
    with "1.prems" show ?thesis by (simp add: nextLine.simps [of inp])
  next
    case (Some p)
    obtain l r where p: "p = (l, r)" by (cases p)
    have sh: "length r < length inp" using Some p readLine_shorter by blast
    show ?thesis
    proof (cases "length l = lengthNL l")
      case True
      with "1.prems" Some p have "nextLine r = Some (line, rest)"
        by (simp add: nextLine.simps [of inp])
      with "1.IH" [OF Some p [symmetric] True] have "length rest < length r" by simp
      with sh show ?thesis by simp
    next
      case False
      with "1.prems" Some p have "rest = r" by (simp add: nextLine.simps [of inp])
      with sh show ?thesis by simp
    qed
  qed
qed

lemma parse_rest_le:
  "parseField line rest fs = Inr (dst, rest') \<Longrightarrow> length rest' \<le> length rest"
  "parseQuoted line rest buf fs = Inr (dst, rest') \<Longrightarrow> length rest' \<le> length rest"
proof (induction line rest fs and line rest buf fs arbitrary: dst rest' and dst rest'
       rule: parseField_parseQuoted.induct)
  case (1 line rest fs)
  show ?case
    using "1.prems" [unfolded parseField.simps [of line rest fs]] "1.IH"
    by (auto simp: Let_def split: if_splits option.splits)
next
  case (2 line rest buf fs)
  show ?case
    using "2.prems" [unfolded parseQuoted.simps [of line rest buf fs]] "2.IH"
    apply (auto simp: Let_def split: if_splits option.splits dest!: readLine_shorter)
    apply (metis le_trans less_imp_le_nat)
    done
qed

lemma readRecord_shorter:
  "readRecord r = Inr (Some (dst, r')) \<Longrightarrow> length (input r') < length (input r)"
  by (auto simp: readRecord_def split: option.splits sum.splits if_splits prod.splits
      dest!: nextLine_shorter parse_rest_le(1))

text \<open>
  \<^verbatim>\<open>ReadAll\<close>: read records until \<^verbatim>\<open>io.EOF\<close>; the first error ends the loop and no
  records are returned.
\<close>

function readAll_loop :: "Reader \<Rightarrow> string list list \<Rightarrow> csv_err + string list list" where
  "readAll_loop r records =
     (case readRecord r of
        Inl e \<Rightarrow> Inl e
      | Inr None \<Rightarrow> Inr records
      | Inr (Some (record, r')) \<Rightarrow> readAll_loop r' (records @ [record]))"
  by pat_completeness auto
termination
  by (relation "measure (\<lambda>(r, records). length (input r))") (auto dest: readRecord_shorter)

declare readAll_loop.simps [simp del]

definition ReadAll :: "Reader \<Rightarrow> csv_err + string list list" where
  "ReadAll r = readAll_loop r []"

section \<open>CsvToSlice\<close>

type_synonym table = "string \<rightharpoonup> string list"

text \<open>
  The inner loop (lines 56 to 60): for the header position \<open>i\<close> and its name \<open>col\<close>,
  append field \<open>i\<close> of every data record that has one to \<open>result[col]\<close>. Reading a key
  that is absent yields the nil slice, as a Go map does.
\<close>

definition append_column :: "nat \<Rightarrow> string \<Rightarrow> table \<Rightarrow> string list list \<Rightarrow> table" where
  "append_column i col result rows =
     foldl (\<lambda>res record.
              if i < length record
              then res(col \<mapsto> (case res col of None \<Rightarrow> [] | Some vs \<Rightarrow> vs) @ [record ! i])
              else res)
           result rows"

text \<open>
  The outer loop (lines 54 to 61): every header position in order; \<open>result[col]\<close> is
  reset to an empty slice before the inner loop runs.
\<close>

definition fill_columns :: "string list \<Rightarrow> string list list \<Rightarrow> table" where
  "fill_columns header rows =
     foldl (\<lambda>result (i, col). append_column i col (result(col \<mapsto> [])) rows)
           Map.empty (enumerate 0 header)"

definition CsvToSlice :: "string \<Rightarrow> error + table" where
  "CsvToSlice data =
     (case ReadAll (NewReader data) of
        Inl err \<Rightarrow> Inl (CsvParseError err)
      | Inr records \<Rightarrow>
          if length records < 1 then Inl NoDataFound
          else (let header = records ! 0 in Inr (fill_columns header (drop 1 records))))"

section \<open>ConnectAIModel\<close>

record Inputs =
  Table :: table
  Query :: string

record Response =
  Answer :: string
  Coordinates :: "int list list"
  Cells :: "string list"
  Aggregator :: string

text \<open>
  A value decoded by \<^verbatim>\<open>json.Unmarshal\<close> into \<^verbatim>\<open>interface{}\<close>. A JSON number arrives as a
  \<^verbatim>\<open>float64\<close>; every finite \<^verbatim>\<open>float64\<close> is a rational number, and that is the value kept.
\<close>

datatype json_value =
    Nil
  | Bool bool
  | Float64 rat
  | String string
  | Array "json_value list"
  | Object "(string \<times> json_value) list"

text \<open>
  \<^verbatim>\<open>bytes.Buffer\<close> and the body of an HTTP response are streams: a read hands out the
  unread bytes and moves the offset, so a second read finds nothing.
\<close>

record Buffer =
  buf :: string
  off :: nat

definition NewBuffer :: "string \<Rightarrow> Buffer" where
  "NewBuffer data = \<lparr>buf = data, off = 0\<rparr>"

definition io_ReadAll :: "Buffer \<Rightarrow> string \<times> Buffer" where
  "io_ReadAll b = (drop (off b) (buf b), b\<lparr>off := length (buf b)\<rparr>)"

record Request =
  Method :: string
  URL :: string
  Header :: "string \<rightharpoonup> string"
  ReqBody :: Buffer
  ContentLength :: int

text \<open>
  \<^verbatim>\<open>http.NewRequest\<close> fails on a malformed method or URL only; the method and URL of
  line 74 are constants that parse.
\<close>

definition http_NewRequest :: "string \<Rightarrow> string \<Rightarrow> Buffer \<Rightarrow> error + Request" where
  "http_NewRequest method u body =
     Inr \<lparr>Method = method, URL = u, Header = Map.empty, ReqBody = body,
          ContentLength = int (length (buf body) - off body)\<rparr>"

definition Header_Set :: "Request \<Rightarrow> string \<Rightarrow> string \<Rightarrow> Request" where
  "Header_Set req k v = req\<lparr>Header := (Header req)(k \<mapsto> v)\<rparr>"

text \<open>What one call of \<^verbatim>\<open>Client.Do\<close> puts on the wire.\<close>

record WireRequest =
  wMethod :: string
  wURL :: string
  wHeader :: "string \<rightharpoonup> string"
  wContentLength :: int
  wBody :: string

record HttpResponse =
  StatusCode :: int
  Status :: string
  Body :: Buffer

definition StatusOK :: int where "StatusOK = 200"
definition StatusServiceUnavailable :: int where "StatusServiceUnavailable = 503"

text \<open>
  What \<^verbatim>\<open>ConnectAIModel\<close> takes from outside \<^verbatim>\<open>main.go\<close>:
  \<^item> \<open>json_Marshal\<close>, \<open>json_Decode_Response\<close> and \<open>json_Unmarshal\<close> are the three calls into
    \<^verbatim>\<open>encoding/json\<close> (lines 69, 92 and 101), the last one decoding into
    \<^verbatim>\<open>map[string]interface{}\<close>;
  \<^item> \<open>RoundTrip n w\<close> is what the transport of \<^verbatim>\<open>c.Client\<close> and the endpoint behind it answer
    to the \<open>n\<close>-th request of this call (counted from 0) when \<open>w\<close> goes on the wire: a
    transport error or a response;
  \<^item> \<open>float64_to_int64_oor\<close> is the result of converting to \<^verbatim>\<open>int64\<close> a \<^verbatim>\<open>float64\<close> whose
    integer part does not fit, which Go leaves to the implementation.
\<close>

record env =
  json_Marshal :: "Inputs \<Rightarrow> error + string"
  json_Decode_Response :: "string \<Rightarrow> error + Response"
  json_Unmarshal :: "string \<Rightarrow> error + (string \<rightharpoonup> json_value)"
  RoundTrip :: "nat \<Rightarrow> WireRequest \<Rightarrow> error + HttpResponse"
  float64_to_int64_oor :: "rat \<Rightarrow> 64 word"

text \<open>
  \<^verbatim>\<open>Client.Do\<close> sends the request: the transport reads the request body to its end and
  writes what it read. The request object is left with a drained body.
\<close>

definition on_wire :: "Request \<Rightarrow> WireRequest \<times> Request" where
  "on_wire req =
     (let (sent, b) = io_ReadAll (ReqBody req)
      in (\<lparr>wMethod = Method req, wURL = URL req, wHeader = Header req,
            wContentLength = ContentLength req, wBody = sent\<rparr>,
          req\<lparr>ReqBody := b\<rparr>))"

definition Client_Do :: "env \<Rightarrow> nat \<Rightarrow> Request \<Rightarrow> (error + HttpResponse) \<times> WireRequest \<times> Request" where
  "Client_Do env n req = (let (w, req') = on_wire req in (RoundTrip env n w, w, req'))"

text \<open>
  \<^verbatim>\<open>time.Duration(estimatedTime) * time.Second\<close> (line 104). \<^verbatim>\<open>time.Duration\<close> is an
  \<^verbatim>\<open>int64\<close> count of nanoseconds. The conversion from \<^verbatim>\<open>float64\<close> drops the fraction
  (towards zero); the multiplication is \<^verbatim>\<open>int64\<close> multiplication and wraps.
\<close>

definition trunc :: "rat \<Rightarrow> int" where
  "trunc x = (if x \<ge> 0 then \<lfloor>x\<rfloor> else \<lceil>x\<rceil>)"

definition time_Duration :: "env \<Rightarrow> rat \<Rightarrow> 64 word" where
  "time_Duration env x =
     (if - (2 ^ 63) \<le> trunc x \<and> trunc x < 2 ^ 63 then word_of_int (trunc x)
      else float64_to_int64_oor env x)"

definition time_Second :: "64 word" where
  "time_Second = 1000000000"

text \<open>
  \<^verbatim>\<open>time.Sleep d\<close> pauses for \<open>d\<close> nanoseconds and returns at once when \<open>d\<close> is zero or
  negative.
\<close>

definition pause_ns :: "64 word \<Rightarrow> int" where
  "pause_ns d = (if sint d \<le> 0 then 0 else sint d)"

text \<open>
  What a run does that can be seen from outside: the requests it issues, the values it
  logs as \<^verbatim>\<open>estimatedTime\<close> (line 103), and the arguments of \<^verbatim>\<open>time.Sleep\<close>.
\<close>

datatype event = Issued WireRequest | Logged rat | Slept "64 word"

definition maxRetries :: nat where "maxRetries = 10"

text \<open>
  Lines 98 to 108: on a 503 the body is read to its end and decoded; the result is the
  \<^verbatim>\<open>estimated_time\<close> when it is there and is a \<^verbatim>\<open>float64\<close>. The response is returned with
  what is left of its body.
\<close>

definition estimated_time :: "env \<Rightarrow> HttpResponse \<Rightarrow> rat option \<times> HttpResponse" where
  "estimated_time env resp =
     (if StatusCode resp = StatusServiceUnavailable then
        (let (body, b) = io_ReadAll (Body resp)
         in (case json_Unmarshal env body of
               Inl err \<Rightarrow> None
             | Inr result \<Rightarrow>
                 (case result ''estimated_time'' of
                    Some (Float64 estimatedTime) \<Rightarrow> Some estimatedTime
                  | _ \<Rightarrow> None),
             resp\<lparr>Body := b\<rparr>))
      else (None, resp))"

text \<open>
  The loop of lines 83 to 112, from iteration \<open>i\<close> on, with the request object as the
  earlier iterations left it. \<^verbatim>\<open>defer resp.Body.Close()\<close> has no effect on the result.
\<close>

function retry_loop ::
  "env \<Rightarrow> nat \<Rightarrow> Request \<Rightarrow> event list \<Rightarrow> (error + Response) \<times> event list" where
  "retry_loop env i req tr =
     (if i < maxRetries then
        (case Client_Do env i req of
           (Inl err, w, req') \<Rightarrow> (Inl err, tr @ [Issued w])
         | (Inr resp, w, req') \<Rightarrow>
             if StatusCode resp = StatusOK then
               (case json_Decode_Response env (fst (io_ReadAll (Body resp))) of
                  Inl err \<Rightarrow> (Inl err, tr @ [Issued w])
                | Inr aiResponse \<Rightarrow> (Inr aiResponse, tr @ [Issued w]))
             else
               (case estimated_time env resp of
                  (Some estimatedTime, resp') \<Rightarrow>
                    retry_loop env (i + 1) req'
                      (tr @ [Issued w, Logged estimatedTime,
                             Slept (time_Duration env estimatedTime * time_Second)])
                | (None, resp') \<Rightarrow>
                    (Inl (StatusError (Status resp) (fst (io_ReadAll (Body resp')))),
                     tr @ [Issued w])))
      else (Inl MaxRetries, tr))"
  by pat_completeness auto
termination
  by (relation "measure (\<lambda>(env, i, req, tr). maxRetries - i)") auto

declare retry_loop.simps [simp del]

definition url :: string where
  "url = ''https://api-inference.huggingface.co/models/google/tapas-base-finetuned-wtq''"

definition ConnectAIModel :: "env \<Rightarrow> Inputs \<Rightarrow> string \<Rightarrow> (error + Response) \<times> event list" where
  "ConnectAIModel env payload token =
     (case json_Marshal env payload of
        Inl err \<Rightarrow> (Inl err, [])
      | Inr data \<Rightarrow>
          (case http_NewRequest ''POST'' url (NewBuffer data) of
             Inl err \<Rightarrow> (Inl err, [])
           | Inr req \<Rightarrow>
               retry_loop env 0
                 (Header_Set (Header_Set req ''Authorization'' (''Bearer '' @ token))
                    ''Content-Type'' ''application/json'')
                 []))"

text \<open>The requests, the sleeps and the logged values of a run, in order.\<close>

definition requests :: "event list \<Rightarrow> WireRequest list" where
  "requests tr = concat (map (\<lambda>e. case e of Issued w \<Rightarrow> [w] | _ \<Rightarrow> []) tr)"

definition sleeps :: "event list \<Rightarrow> 64 word list" where
  "sleeps tr = concat (map (\<lambda>e. case e of Slept d \<Rightarrow> [d] | _ \<Rightarrow> []) tr)"

definition logged :: "event list \<Rightarrow> rat list" where
  "logged tr = concat (map (\<lambda>e. case e of Logged t \<Rightarrow> [t] | _ \<Rightarrow> []) tr)"

text \<open>
  The cells that the inner loop collects for header position \<open>i\<close>: field \<open>i\<close> of every
  data record that has one, in order.
\<close>

definition column :: "nat \<Rightarrow> string list list \<Rightarrow> string list" where
  "column i rows = map (\<lambda>record. record ! i) (filter (\<lambda>record. i < length record) rows)"

text \<open>
  A response that makes the loop wait and try again: status 503 and a body that decodes
  to a map whose \<^verbatim>\<open>estimated_time\<close> is a \<^verbatim>\<open>float64\<close>.
\<close>

definition warming_up :: "env \<Rightarrow> HttpResponse \<Rightarrow> rat \<Rightarrow> bool" where
  "warming_up env resp t =
     (StatusCode resp = StatusServiceUnavailable \<and>
      (case json_Unmarshal env (fst (io_ReadAll (Body resp))) of
         Inl err \<Rightarrow> False
       | Inr result \<Rightarrow> result ''estimated_time'' = Some (Float64 t)))"

text \<open>
  The request object that \<^verbatim>\<open>ConnectAIModel\<close> builds once, before the loop, as it stands
  after \<open>n\<close> calls of \<^verbatim>\<open>Client.Do\<close>, and what the next call puts on the wire. The body
  buffer is read by the first call and is never rewound.
\<close>

definition request_after :: "string \<Rightarrow> string \<Rightarrow> nat \<Rightarrow> Request" where
  "request_after data token n =
     \<lparr>Method = ''POST'', URL = url,
      Header = [''Authorization'' \<mapsto> ''Bearer '' @ token, ''Content-Type'' \<mapsto> ''application/json''],
      ReqBody = \<lparr>buf = data, off = (if n = 0 then 0 else length data)\<rparr>,
      ContentLength = int (length data)\<rparr>"

definition wire :: "string \<Rightarrow> string \<Rightarrow> nat \<Rightarrow> WireRequest" where
  "wire data token n =
     \<lparr>wMethod = ''POST'', wURL = url,
      wHeader = [''Authorization'' \<mapsto> ''Bearer '' @ token, ''Content-Type'' \<mapsto> ''application/json''],
      wContentLength = int (length data),
      wBody = (if n = 0 then data else [])\<rparr>"

text \<open>The events of one attempt that ends in a wait.\<close>

definition attempt_events :: "env \<Rightarrow> WireRequest \<Rightarrow> rat \<Rightarrow> event list" where
  "attempt_events env w t = [Issued w, Logged t, Slept (time_Duration env t * time_Second)]"

section \<open>The JSON encoding of the request payload\<close>

text \<open>
  \<^verbatim>\<open>json.Marshal(payload)\<close> of line 69, and \<^verbatim>\<open>json.Unmarshal\<close> of its result into an
  \<^verbatim>\<open>Inputs\<close> value, on bytes. A Go string is any byte sequence; \<^verbatim>\<open>encoding/json\<close> writes
  a string as a JSON string coerced to valid UTF-8, every invalid byte becoming U+FFFD.

  \<^verbatim>\<open>utf8.DecodeRuneInString\<close> and \<^verbatim>\<open>utf8.EncodeRune\<close>: the masks and shifts of the library
  are written with \<open>mod\<close>, \<open>div\<close> and multiplication on natural numbers. An invalid
  encoding decodes to \<open>(RuneError, 1)\<close>.
\<close>

definition BS :: char where "BS = CHR 0x5C"

definition RuneError :: nat where "RuneError = 0xFFFD"

definition byte :: "char \<Rightarrow> nat" where "byte c = of_char c"

definition DecodeRune :: "string \<Rightarrow> nat \<times> nat" where
  "DecodeRune s =
     (case s of
        [] \<Rightarrow> (RuneError, 0)
      | c # t \<Rightarrow>
          (let s0 = byte c in
           if s0 < 0x80 then (s0, 1)
           else if s0 < 0xC2 \<or> 0xF4 < s0 then (RuneError, 1)
           else
             (let sz = (if s0 < 0xE0 then 2 else if s0 < 0xF0 then 3 else 4 :: nat);
                  lo = (if s0 = 0xE0 then 0xA0 else if s0 = 0xF0 then 0x90 else 0x80);
                  hi = (if s0 = 0xED then 0x9F else if s0 = 0xF4 then 0x8F else 0xBF)
              in if length s < sz then (RuneError, 1)
                 else
                   (let s1 = byte (s ! 1) in
                    if s1 < lo \<or> hi < s1 then (RuneError, 1)
                    else if sz \<le> 2 then ((s0 mod 32) * 64 + s1 mod 64, 2)
                    else
                      (let s2 = byte (s ! 2) in
                       if s2 < 0x80 \<or> 0xBF < s2 then (RuneError, 1)
                       else if sz \<le> 3
                         then ((s0 mod 16) * 4096 + (s1 mod 64) * 64 + s2 mod 64, 3)
                       else
                         (let s3 = byte (s ! 3) in
                          if s3 < 0x80 \<or> 0xBF < s3 then (RuneError, 1)
                          else ((s0 mod 8) * 262144 + (s1 mod 64) * 4096 +
                                (s2 mod 64) * 64 + s3 mod 64, 4)))))))"

definition chr :: "nat \<Rightarrow> char" where "chr n = char_of n"

definition EncodeRune :: "nat \<Rightarrow> string" where
  "EncodeRune r =
     (if r < 0x80 then [chr r]
      else if r < 0x800 then [chr (0xC0 + r div 64), chr (0x80 + r mod 64)]
      else if 0x10FFFF < r \<or> (0xD800 \<le> r \<and> r \<le> 0xDFFF) then [CHR 0xEF, CHR 0xBF, CHR 0xBD]
      else if r < 0x10000
        then [chr (0xE0 + r div 4096), chr (0x80 + (r div 64) mod 64), chr (0x80 + r mod 64)]
      else [chr (0xF0 + r div 262144), chr (0x80 + (r div 4096) mod 64),
            chr (0x80 + (r div 64) mod 64), chr (0x80 + r mod 64)])"

definition hex :: "nat \<Rightarrow> char" where
  "hex n = ''0123456789abcdef'' ! n"

definition htmlSafe :: "char \<Rightarrow> bool" where
  "htmlSafe c = (0x20 \<le> byte c \<and> byte c < 0x80 \<and>
                 c \<noteq> Quote \<and> c \<noteq> BS \<and> c \<noteq> CHR ''<'' \<and> c \<noteq> CHR ''>'' \<and> c \<noteq> CHR ''&'')"

lemma DecodeRune_size: "s \<noteq> [] \<Longrightarrow> 1 \<le> snd (DecodeRune s) \<and> snd (DecodeRune s) \<le> length s"
  by (cases s) (auto simp: DecodeRune_def Let_def Suc_le_eq)

text \<open>
  \<^verbatim>\<open>appendString\<close> with \<^verbatim>\<open>escapeHTML\<close> set, as \<^verbatim>\<open>json.Marshal\<close> calls it, without the
  surrounding quotes. \<open>escapeByte\<close> is its switch for a byte below \<^verbatim>\<open>utf8.RuneSelf\<close>.
\<close>

definition escapeByte :: "char \<Rightarrow> string" where
  "escapeByte c =
     (if htmlSafe c then [c]
      else if c = BS \<or> c = Quote then [BS, c]
      else if c = CHR 0x08 then [BS, CHR ''b'']
      else if c = CHR 0x0C then [BS, CHR ''f'']
      else if c = CHR 0x0A then [BS, CHR ''n'']
      else if c = CHR 0x0D then [BS, CHR ''r'']
      else if c = CHR 0x09 then [BS, CHR ''t'']
      else [BS] @ ''u00'' @ [hex (byte c div 16), hex (byte c mod 16)])"

function appendString :: "string \<Rightarrow> string" where
  "appendString s =
     (case s of
        [] \<Rightarrow> []
      | c # t \<Rightarrow>
          if byte c < 0x80 then escapeByte c @ appendString t
          else
            (case DecodeRune s of (r, k) \<Rightarrow>
               (if r = RuneError \<and> k = 1 then [BS] @ ''ufffd''
                else if r = 0x2028 \<or> r = 0x2029 then [BS] @ ''u202'' @ [hex (r mod 16)]
                else take k s)
               @ appendString (drop k s)))"
  by pat_completeness auto
termination
proof (relation "measure length", goal_cases)
  case 1 show ?case by simp
next
  case (2 s c t) then show ?case by simp
next
  case (3 s c t x r)
  with DecodeRune_size [of "c # t"] show ?case by (cases "DecodeRune (c # t)") auto
qed

declare appendString.simps [simp del]


text \<open>\<^verbatim>\<open>utf8.ValidString\<close>: no position of the string decodes to an invalid encoding.\<close>

function ValidString :: "string \<Rightarrow> bool" where
  "ValidString s =
     (case s of
        [] \<Rightarrow> True
      | c # t \<Rightarrow>
          (case DecodeRune s of (r, k) \<Rightarrow>
             \<not> (r = RuneError \<and> k = 1) \<and> ValidString (drop k s)))"
  by pat_completeness auto
termination
proof (relation "measure length", goal_cases)
  case 1 show ?case by simp
next
  case (2 s c t x r)
  with DecodeRune_size [of "c # t"] show ?case by (cases "DecodeRune (c # t)") auto
qed

declare ValidString.simps [simp del]

text \<open>
  \<^verbatim>\<open>unquote\<close>: the decoder of a JSON string literal, from the byte after the opening
  quote; the result is the decoded string and the input after the closing quote. It is
  the scanner's check of the literal and \<^verbatim>\<open>unquoteBytes\<close> in one pass.
\<close>

definition hexval :: "char \<Rightarrow> nat option" where
  "hexval c =
     (if CHR ''0'' \<le> c \<and> c \<le> CHR ''9'' then Some (byte c - byte CHR ''0'')
      else if CHR ''a'' \<le> c \<and> c \<le> CHR ''f'' then Some (byte c - byte CHR ''a'' + 10)
      else if CHR ''A'' \<le> c \<and> c \<le> CHR ''F'' then Some (byte c - byte CHR ''A'' + 10)
      else None)"

definition getu4 :: "string \<Rightarrow> nat option" where
  "getu4 s =
     (case s of
        b # u # h1 # h2 # h3 # h4 # rest \<Rightarrow>
          if b = BS \<and> u = CHR ''u'' then
            (case (hexval h1, hexval h2, hexval h3, hexval h4) of
               (Some a, Some b, Some c, Some d) \<Rightarrow> Some (a * 4096 + b * 256 + c * 16 + d)
             | _ \<Rightarrow> None)
          else None
      | _ \<Rightarrow> None)"

definition IsSurrogate :: "nat \<Rightarrow> bool" where
  "IsSurrogate r = (0xD800 \<le> r \<and> r < 0xE000)"

definition utf16_DecodeRune :: "nat \<Rightarrow> nat option \<Rightarrow> nat" where
  "utf16_DecodeRune r1 r2 =
     (case r2 of
        Some r2' \<Rightarrow>
          if 0xD800 \<le> r1 \<and> r1 < 0xDC00 \<and> 0xDC00 \<le> r2' \<and> r2' < 0xE000
          then (r1 - 0xD800) * 1024 + (r2' - 0xDC00) + 0x10000
          else RuneError
      | None \<Rightarrow> RuneError)"

lemma getu4_length: "getu4 s = Some r \<Longrightarrow> 6 \<le> length s"
  by (auto simp: getu4_def split: list.splits)

function unquote :: "string \<Rightarrow> string \<Rightarrow> (string \<times> string) option" where
  "unquote s acc =
     (case s of
        [] \<Rightarrow> None
      | c # t \<Rightarrow>
          if c = Quote then Some (acc, t)
          else if c = BS then
            (case t of
               [] \<Rightarrow> None
             | e # u \<Rightarrow>
                 if e = Quote \<or> e = BS \<or> e = CHR ''/'' then unquote u (acc @ [e])
                 else if e = CHR ''b'' then unquote u (acc @ [CHR 0x08])
                 else if e = CHR ''f'' then unquote u (acc @ [CHR 0x0C])
                 else if e = CHR ''n'' then unquote u (acc @ [CHR 0x0A])
                 else if e = CHR ''r'' then unquote u (acc @ [CHR 0x0D])
                 else if e = CHR ''t'' then unquote u (acc @ [CHR 0x09])
                 else if e = CHR ''u'' then
                   (case getu4 s of
                      None \<Rightarrow> None
                    | Some rr \<Rightarrow>
                        if IsSurrogate rr then
                          (if utf16_DecodeRune rr (getu4 (drop 6 s)) \<noteq> RuneError
                           then unquote (drop 12 s)
                                  (acc @ EncodeRune (utf16_DecodeRune rr (getu4 (drop 6 s))))
                           else unquote (drop 6 s) (acc @ EncodeRune RuneError))
                        else unquote (drop 6 s) (acc @ EncodeRune rr))
                 else None)
          else if byte c < 0x20 then None
          else if byte c < 0x80 then unquote t (acc @ [c])
          else (case DecodeRune s of (rr, k) \<Rightarrow> unquote (drop k s) (acc @ EncodeRune rr)))"
  by pat_completeness auto
termination
  apply (relation "measure (\<lambda>(s, acc). length s)")
  apply (auto dest!: getu4_length)
  subgoal for c t x r using DecodeRune_size [of "c # t"] by (cases "DecodeRune (c # t)") auto
  done

declare unquote.simps [simp del]

lemma unquote_shorter: "unquote s acc = Some (x, r) \<Longrightarrow> length r < length s"
proof (induction s arbitrary: acc rule: length_induct)
  case (1 s)
  have IH: "\<And>ys acc. unquote ys acc = Some (x, r) \<Longrightarrow> length ys < length s \<Longrightarrow> length r < length s"
    using "1.IH" by (meson less_trans)
  from "1.prems" show ?case
  proof (cases s)
    case Nil
    with "1.prems" show ?thesis by (simp add: unquote.simps [of "[]"])
  next
    case (Cons c t)
    obtain rr k where dr: "DecodeRune (c # t) = (rr, k)" by (cases "DecodeRune (c # t)")
    with DecodeRune_size [of "c # t"] have k: "0 < k" by auto
    have g: "6 \<le> length s" if "getu4 s = Some u" for u using that by (rule getu4_length)
    show ?thesis
      using "1.prems" k
      unfolding Cons unquote.simps [of "c # t"] dr
      by (auto split: if_splits list.splits option.splits
          dest!: IH simp: Cons dest: getu4_length)
  qed
qed

text \<open>
  The encoders of \<^verbatim>\<open>string\<close>, \<^verbatim>\<open>[]string\<close>, \<^verbatim>\<open>map[string][]string\<close> (keys in sorted order) and
  of the struct \<^verbatim>\<open>Inputs\<close> with its field tags. Maps and slices are taken to be non-nil, as
  \<^verbatim>\<open>CsvToSlice\<close> builds them.
\<close>

definition encodeString :: "string \<Rightarrow> string" where
  "encodeString s = [Quote] @ appendString s @ [Quote]"

fun encodeElems :: "string list \<Rightarrow> string" where
  "encodeElems [] = []"
| "encodeElems [x] = encodeString x"
| "encodeElems (x # y # ys) = encodeString x @ '','' @ encodeElems (y # ys)"

definition encodeSlice :: "string list \<Rightarrow> string" where
  "encodeSlice xs = ''['' @ encodeElems xs @ '']''"

definition encodeMember :: "table \<Rightarrow> string \<Rightarrow> string" where
  "encodeMember m k =
     encodeString k @ '':'' @ encodeSlice (case m k of None \<Rightarrow> [] | Some vs \<Rightarrow> vs)"

fun encodeMembers :: "table \<Rightarrow> string list \<Rightarrow> string" where
  "encodeMembers m [] = []"
| "encodeMembers m [k] = encodeMember m k"
| "encodeMembers m (k # k' # ks) = encodeMember m k @ '','' @ encodeMembers m (k' # ks)"

definition encodeMap :: "table \<Rightarrow> string" where
  "encodeMap m = ''{'' @ encodeMembers m (sorted_list_of_set (dom m)) @ ''}''"

definition json_Marshal_Inputs :: "Inputs \<Rightarrow> string" where
  "json_Marshal_Inputs payload =
     ''{'' @ encodeString ''table'' @ '':'' @ encodeMap (Table payload) @ '','' @
       encodeString ''query'' @ '':'' @ encodeString (Query payload) @ ''}''"

text \<open>
  The decoder into \<^verbatim>\<open>Inputs\<close>, for JSON texts of the shape that \<^verbatim>\<open>json.Marshal\<close> writes: no
  white space, an object whose members are named \<^verbatim>\<open>table\<close> and \<^verbatim>\<open>query\<close>, in any order and
  number, a later member overwriting an earlier one. Every other text gives \<open>None\<close>, which
  stands for an error as well as for a text outside this shape.
\<close>

definition decodeString :: "string \<Rightarrow> (string \<times> string) option" where
  "decodeString s =
     (case s of [] \<Rightarrow> None | c # t \<Rightarrow> if c = Quote then unquote t [] else None)"

lemma decodeString_shorter: "decodeString s = Some (x, r) \<Longrightarrow> length r < length s"
  by (auto simp: decodeString_def split: list.splits if_splits dest!: unquote_shorter)

function decodeElems :: "string \<Rightarrow> string list \<Rightarrow> (string list \<times> string) option" where
  "decodeElems s acc =
     (case decodeString s of
        None \<Rightarrow> None
      | Some (x, r) \<Rightarrow>
          (case r of
             [] \<Rightarrow> None
           | c # r' \<Rightarrow>
               if c = CHR '','' then decodeElems r' (acc @ [x])
               else if c = CHR '']'' then Some (acc @ [x], r')
               else None))"
  by pat_completeness auto
termination
  by (relation "measure (\<lambda>(s, acc). length s)") (auto dest!: decodeString_shorter)

declare decodeElems.simps [simp del]

definition decodeSlice :: "string \<Rightarrow> (string list \<times> string) option" where
  "decodeSlice s =
     (case s of
        [] \<Rightarrow> None
      | c # t \<Rightarrow>
          if c = CHR ''['' then
            (case t of
               [] \<Rightarrow> None
             | d # t' \<Rightarrow> if d = CHR '']'' then Some ([], t') else decodeElems t [])
          else None)"

lemma decodeElems_shorter: "decodeElems s acc = Some (xs, r) \<Longrightarrow> length r < length s"
proof (induction s arbitrary: acc rule: length_induct)
  case (1 s)
  have IH: "\<And>ys acc. decodeElems ys acc = Some (xs, r) \<Longrightarrow> length ys < length s \<Longrightarrow>
              length r < length s"
    using "1.IH" by (meson less_trans)
  show ?case
    using "1.prems" unfolding decodeElems.simps [of s]
    apply (auto split: option.splits list.splits if_splits dest!: decodeString_shorter)
    apply (erule IH, simp)
    done
qed

lemma decodeSlice_shorter: "decodeSlice s = Some (xs, r) \<Longrightarrow> length r < length s"
  by (auto simp: decodeSlice_def split: list.splits if_splits dest!: decodeElems_shorter)

function decodeMembers :: "string \<Rightarrow> table \<Rightarrow> (table \<times> string) option" where
  "decodeMembers s m =
     (case decodeString s of
        None \<Rightarrow> None
      | Some (k, r) \<Rightarrow>
          (case r of
             [] \<Rightarrow> None
           | c # r1 \<Rightarrow>
               if c = CHR '':'' then
                 (case decodeSlice r1 of
                    None \<Rightarrow> None
                  | Some (vs, r2) \<Rightarrow>
                      (case r2 of
                         [] \<Rightarrow> None
                       | d # r3 \<Rightarrow>
                           if d = CHR '','' then decodeMembers r3 (m(k \<mapsto> vs))
                           else if d = CHR ''}'' then Some (m(k \<mapsto> vs), r3)
                           else None))
               else None))"
  by pat_completeness auto
termination
  by (relation "measure (\<lambda>(s, m). length s)")
     (auto dest!: decodeString_shorter decodeSlice_shorter)

declare decodeMembers.simps [simp del]

definition decodeMap :: "string \<Rightarrow> table \<Rightarrow> (table \<times> string) option" where
  "decodeMap s m =
     (case s of
        [] \<Rightarrow> None
      | c # t \<Rightarrow>
          if c = CHR ''{'' then
            (case t of
               [] \<Rightarrow> None
             | d # t' \<Rightarrow> if d = CHR ''}'' then Some (m, t') else decodeMembers t m)
          else None)"

lemma decodeMembers_shorter: "decodeMembers s m = Some (m', r) \<Longrightarrow> length r < length s"
proof (induction s arbitrary: m rule: length_induct)
  case (1 s)
  have IH: "\<And>ys m. decodeMembers ys m = Some (m', r) \<Longrightarrow> length ys < length s \<Longrightarrow>
              length r < length s"
    using "1.IH" by (meson less_trans)
  show ?case
    using "1.prems" unfolding decodeMembers.simps [of s]
    apply (auto split: option.splits list.splits if_splits
        dest!: decodeString_shorter decodeSlice_shorter)
    apply (erule IH, simp)
    done
qed

lemma decodeMap_shorter: "decodeMap s m = Some (m', r) \<Longrightarrow> length r < length s"
  by (auto simp: decodeMap_def split: list.splits if_splits dest!: decodeMembers_shorter)

definition decodeField :: "string \<Rightarrow> string \<Rightarrow> Inputs \<Rightarrow> (Inputs \<times> string) option" where
  "decodeField k s v =
     (if k = ''table'' then
        (case decodeMap s (Table v) of
           None \<Rightarrow> None
         | Some (m, r) \<Rightarrow> Some (v\<lparr>Table := m\<rparr>, r))
      else if k = ''query'' then
        (case decodeString s of
           None \<Rightarrow> None
         | Some (x, r) \<Rightarrow> Some (v\<lparr>Query := x\<rparr>, r))
      else None)"

lemma decodeField_shorter: "decodeField k s v = Some (v', r) \<Longrightarrow> length r < length s"
  by (auto simp: decodeField_def split: if_splits option.splits
      dest!: decodeMap_shorter decodeString_shorter)

function decodeFields :: "string \<Rightarrow> Inputs \<Rightarrow> Inputs option" where
  "decodeFields s v =
     (case decodeString s of
        None \<Rightarrow> None
      | Some (k, r) \<Rightarrow>
          (case r of
             [] \<Rightarrow> None
           | c # r1 \<Rightarrow>
               if c = CHR '':'' then
                 (case decodeField k r1 v of
                    None \<Rightarrow> None
                  | Some (v', r2) \<Rightarrow>
                      (case r2 of
                         [] \<Rightarrow> None
                       | d # r3 \<Rightarrow>
                           if d = CHR '','' then decodeFields r3 v'
                           else if d = CHR ''}'' \<and> r3 = [] then Some v'
                           else None))
               else None))"
  by pat_completeness auto
termination
  by (relation "measure (\<lambda>(s, v). length s)")
     (auto dest!: decodeString_shorter decodeField_shorter)

declare decodeFields.simps [simp del]

definition json_Unmarshal_Inputs :: "string \<Rightarrow> Inputs option" where
  "json_Unmarshal_Inputs data =
     (case data of
        [] \<Rightarrow> None
      | c # t \<Rightarrow>
          if c = CHR ''{'' then
            (if t = ''}'' then Some \<lparr>Table = Map.empty, Query = []\<rparr>
             else decodeFields t \<lparr>Table = Map.empty, Query = []\<rparr>)
          else None)"

text \<open>The cells of a column, and the update that decoding one member makes.\<close>

definition cells :: "table \<Rightarrow> string \<Rightarrow> string list" where
  "cells m k = (case m k of None \<Rightarrow> [] | Some vs \<Rightarrow> vs)"

definition put :: "table \<Rightarrow> table \<Rightarrow> string \<Rightarrow> table" where
  "put m acc k = acc(k \<mapsto> cells m k)"

section \<open>Example inputs\<close>

text \<open>
  Concrete inputs on which the theorems below are run. \<open>example_env\<close> answers the three
  \<^verbatim>\<open>encoding/json\<close> calls on the bodies of the examples as the library does and reports
  an error on every other input; the out-of-range conversion is the one of amd64.
\<close>

definition ragged_csv :: string where
  "ragged_csv = ''city,kwh'' @ [NL] @ ''A,10'' @ [NL] @ ''B'' @ [NL]"

definition short_row_csv :: string where
  "short_row_csv = ''a,b,c'' @ [NL] @ ''1,2,3'' @ [NL] @ ''4,5'' @ [NL]"

definition duplicate_csv :: string where
  "duplicate_csv = ''a,b,a'' @ [NL] @ ''1,2,3'' @ [NL] @ ''4,5,6'' @ [NL]"

definition unclosed_csv :: string where
  "unclosed_csv = ''a,'' @ [Quote] @ ''b''"

text \<open>A query typed in Latin-1: the last byte is not valid UTF-8.\<close>

definition latin1_payload :: Inputs where
  "latin1_payload = \<lparr>Table = Map.empty, Query = ''caf'' @ [CHR 0xE9]\<rparr>"

definition quoted :: "string \<Rightarrow> string" where
  "quoted s = [Quote] @ s @ [Quote]"

definition example_table :: table where
  "example_table = [''city'' \<mapsto> [''A'', ''B''], ''kwh'' \<mapsto> [''10'', ''20'']]"

definition example_payload :: Inputs where
  "example_payload = \<lparr>Table = example_table, Query = ''total kwh?''\<rparr>"

definition example_data :: string where
  "example_data =
     ''{'' @ quoted ''table'' @ '':{'' @ quoted ''city'' @ '':['' @ quoted ''A'' @ '','' @ quoted ''B'' @ ''],'' @
       quoted ''kwh'' @ '':['' @ quoted ''10'' @ '','' @ quoted ''20'' @ '']},'' @
       quoted ''query'' @ '':'' @ quoted ''total kwh?'' @ ''}''"

definition warm_body :: string where
  "warm_body = ''{'' @ quoted ''estimated_time'' @ '':0.5}''"

definition busy_body :: string where
  "busy_body = ''{'' @ quoted ''error'' @ '':'' @ quoted ''overloaded'' @ ''}''"

definition ok_body :: string where
  "ok_body = ''{'' @ quoted ''answer'' @ '':'' @ quoted ''SUM > 10, 20'' @ '','' @
     quoted ''coordinates'' @ '':[[0,1],[1,1]],'' @
     quoted ''cells'' @ '':['' @ quoted ''10'' @ '','' @ quoted ''20'' @ ''],'' @
     quoted ''aggregator'' @ '':'' @ quoted ''SUM'' @ ''}''"

definition ok_response :: Response where
  "ok_response = \<lparr>Answer = ''SUM > 10, 20'', Coordinates = [[0, 1], [1, 1]],
                    Cells = [''10'', ''20''], Aggregator = ''SUM''\<rparr>"

definition forbidden_body :: string where
  "forbidden_body = ''{'' @ quoted ''error'' @ '':'' @ quoted ''Invalid credentials'' @ ''}''"

definition example_env :: "(nat \<Rightarrow> WireRequest \<Rightarrow> error + HttpResponse) \<Rightarrow> env" where
  "example_env rt =
     \<lparr>json_Marshal = (\<lambda>p. if p = example_payload then Inr example_data
                            else Inl (MarshalError ''not in the example'')),
      json_Decode_Response = (\<lambda>b. if b = ok_body then Inr ok_response
                            else Inl (DecodeError ''not in the example'')),
      json_Unmarshal = (\<lambda>b. if b = warm_body then Inr [''estimated_time'' \<mapsto> Float64 (1 / 2)]
                            else if b = busy_body then Inr [''error'' \<mapsto> String ''overloaded'']
                            else Inl (DecodeError ''not in the example'')),
      RoundTrip = rt,
      float64_to_int64_oor = (\<lambda>x. 0x8000000000000000)\<rparr>"

definition response :: "int \<Rightarrow> string \<Rightarrow> string \<Rightarrow> HttpResponse" where
  "response code status body = \<lparr>StatusCode = code, Status = status, Body = NewBuffer body\<rparr>"

definition warming :: HttpResponse where
  "warming = response 503 ''503 Service Unavailable'' warm_body"

definition always_warming :: "nat \<Rightarrow> WireRequest \<Rightarrow> error + HttpResponse" where
  "always_warming n w = Inr warming"

definition warming_then :: "error + HttpResponse \<Rightarrow> nat \<Rightarrow> WireRequest \<Rightarrow> error + HttpResponse" where
  "warming_then r n w = (if n = 0 then Inr warming else r)"



section \<open>Properties of the CSV reader\<close>

lemma parse_more_fields:
  "parseField line rest fs = Inr (dst, rest') \<Longrightarrow> length fs < length dst"
  "parseQuoted line rest bf fs = Inr (dst, rest') \<Longrightarrow> length fs < length dst"
proof (induction line rest fs and line rest bf fs arbitrary: dst rest' and dst rest'
       rule: parseField_parseQuoted.induct)
  case (1 line rest fs)
  show ?case
    using "1.prems" [unfolded parseField.simps [of line rest fs]] "1.IH"
    by (fastforce simp: Let_def split: if_splits option.splits)
next
  case (2 line rest bf fs)
  show ?case
    using "2.prems" [unfolded parseQuoted.simps [of line rest bf fs]] "2.IH"
    by (fastforce simp: Let_def split: if_splits option.splits)
qed

text \<open>What readRecord returns, by the sign of FieldsPerRecord.\<close>

lemma readRecord_lenient:
  assumes "FieldsPerRecord r < 0"
  shows "readRecord (r\<lparr>FieldsPerRecord := n\<rparr>) =
     (case readRecord r of
        Inl e \<Rightarrow> Inl e
      | Inr None \<Rightarrow> Inr None
      | Inr (Some (dst, r')) \<Rightarrow>
          if n > 0 then (if int (length dst) \<noteq> n then Inl ErrFieldCount
                         else Inr (Some (dst, r'\<lparr>FieldsPerRecord := n\<rparr>)))
          else if n = 0 then Inr (Some (dst, r'\<lparr>FieldsPerRecord := int (length dst)\<rparr>))
          else Inr (Some (dst, r'\<lparr>FieldsPerRecord := n\<rparr>)))"
  using assms
  by (auto simp: readRecord_def split: option.splits sum.splits prod.splits)

lemma readRecord_lenient_keeps:
  "FieldsPerRecord r < 0 \<Longrightarrow> readRecord r = Inr (Some (dst, r')) \<Longrightarrow> FieldsPerRecord r' < 0 \<and> dst \<noteq> []"
  by (auto simp: readRecord_def split: option.splits sum.splits prod.splits if_splits
      dest: parse_more_fields(1))

lemma readAll_loop_strict_of_lenient:
  "readAll_loop r acc = Inr out \<Longrightarrow> FieldsPerRecord r < 0 \<Longrightarrow>
     \<exists>new. out = acc @ new \<and>
       (\<forall>n acc'. n > 0 \<longrightarrow>
          readAll_loop (r\<lparr>FieldsPerRecord := n\<rparr>) acc' =
            (if \<forall>x\<in>set new. int (length x) = n then Inr (acc' @ new) else Inl ErrFieldCount))"
proof (induction r acc arbitrary: out rule: readAll_loop.induct)
  case (1 r records)
  note neg = \<open>FieldsPerRecord r < 0\<close>
  show ?case
  proof (cases "readRecord r")
    case (Inl e)
    with "1.prems" show ?thesis by (simp add: readAll_loop.simps [of r])
  next
    case (Inr opt)
    show ?thesis
    proof (cases opt)
      case None
      with Inr "1.prems" have "out = records" by (simp add: readAll_loop.simps [of r])
      moreover have "\<And>n acc'. readAll_loop (r\<lparr>FieldsPerRecord := n\<rparr>) acc' = Inr acc'"
        by (simp add: readAll_loop.simps [of "r\<lparr>FieldsPerRecord := _\<rparr>"]
            readRecord_lenient [OF neg] Inr None)
      ultimately show ?thesis by simp
    next
      case (Some p)
      obtain dst r' where p: "p = (dst, r')" by (cases p)
      from Inr Some p have rr: "readRecord r = Inr (Some (dst, r'))" by simp
      from readRecord_lenient_keeps [OF neg rr] have neg': "FieldsPerRecord r' < 0" by simp
      from rr "1.prems" have "readAll_loop r' (records @ [dst]) = Inr out"
        by (simp add: readAll_loop.simps [of r])
      from "1.IH" [OF Inr Some p [symmetric] this neg']
      obtain new where out: "out = (records @ [dst]) @ new"
        and new: "\<And>n acc'. n > 0 \<Longrightarrow> readAll_loop (r'\<lparr>FieldsPerRecord := n\<rparr>) acc' =
            (if \<forall>x\<in>set new. int (length x) = n then Inr (acc' @ new) else Inl ErrFieldCount)"
        by blast
      have "readAll_loop (r\<lparr>FieldsPerRecord := n\<rparr>) acc' =
            (if \<forall>x\<in>set (dst # new). int (length x) = n then Inr (acc' @ dst # new)
             else Inl ErrFieldCount)" if n: "n > 0" for n acc'
        using n new [OF n, of "acc' @ [dst]"]
        by (simp add: readAll_loop.simps [of "r\<lparr>FieldsPerRecord := n\<rparr>"]
            readRecord_lenient [OF neg] rr)
      with out show ?thesis by (intro exI [of _ "dst # new"]) simp
    qed
  qed
qed

lemma ReadAll_strict_of_lenient:
  assumes "ReadAll ((NewReader data)\<lparr>FieldsPerRecord := -1\<rparr>) = Inr (H # rows)"
  shows "ReadAll (NewReader data) =
     (if \<forall>x\<in>set rows. length x = length H then Inr (H # rows) else Inl ErrFieldCount)"
proof -
  let ?l = "(NewReader data)\<lparr>FieldsPerRecord := -1\<rparr>"
  have neg: "FieldsPerRecord ?l < 0" by simp
  have strict: "NewReader data = ?l\<lparr>FieldsPerRecord := 0\<rparr>" by (simp add: NewReader_def)
  from assms have loop: "readAll_loop ?l [] = Inr (H # rows)" by (simp add: ReadAll_def)
  show ?thesis
  proof (cases "readRecord ?l")
    case (Inl e)
    with loop show ?thesis by (simp add: readAll_loop.simps [of ?l])
  next
    case (Inr opt)
    show ?thesis
    proof (cases opt)
      case None
      with Inr loop show ?thesis by (simp add: readAll_loop.simps [of ?l])
    next
      case (Some p)
      obtain dst r' where p: "p = (dst, r')" by (cases p)
      from Inr Some p have rr: "readRecord ?l = Inr (Some (dst, r'))" by simp
      from readRecord_lenient_keeps [OF neg rr]
      have neg': "FieldsPerRecord r' < 0" and ne: "dst \<noteq> []" by simp_all
      from rr loop have "readAll_loop r' [dst] = Inr (H # rows)"
        by (simp add: readAll_loop.simps [of ?l])
      from readAll_loop_strict_of_lenient [OF this neg']
      obtain new where out: "H # rows = [dst] @ new"
        and new: "\<And>n acc'. n > 0 \<Longrightarrow> readAll_loop (r'\<lparr>FieldsPerRecord := n\<rparr>) acc' =
            (if \<forall>x\<in>set new. int (length x) = n then Inr (acc' @ new) else Inl ErrFieldCount)"
        by blast
      from out have eq: "dst = H" "new = rows" by simp_all
      from ne have pos: "int (length dst) > 0" by simp
      have "readRecord (NewReader data) =
              Inr (Some (dst, r'\<lparr>FieldsPerRecord := int (length dst)\<rparr>))"
        using readRecord_lenient [OF neg, of 0] rr by (simp add: NewReader_def)
      then have "ReadAll (NewReader data) =
              readAll_loop (r'\<lparr>FieldsPerRecord := int (length dst)\<rparr>) [dst]"
        by (simp add: ReadAll_def readAll_loop.simps [of "NewReader data"])
      also have "\<dots> = (if \<forall>x\<in>set new. int (length x) = int (length dst) then Inr ([dst] @ new)
                        else Inl ErrFieldCount)"
        by (rule new [OF pos])
      finally show ?thesis using eq by simp
    qed
  qed
qed

lemma readRecord_strict:
  "readRecord r = Inr (Some (dst, r')) \<Longrightarrow> FieldsPerRecord r > 0 \<Longrightarrow>
     int (length dst) = FieldsPerRecord r \<and> FieldsPerRecord r' = FieldsPerRecord r"
  by (auto simp: readRecord_def split: option.splits sum.splits prod.splits if_splits)

lemma readRecord_first:
  "readRecord r = Inr (Some (dst, r')) \<Longrightarrow> FieldsPerRecord r = 0 \<Longrightarrow>
     FieldsPerRecord r' = int (length dst) \<and> dst \<noteq> []"
  by (auto simp: readRecord_def split: option.splits sum.splits prod.splits if_splits
      dest: parse_more_fields(1))

lemma readAll_loop_strict:
  "readAll_loop r acc = Inr out \<Longrightarrow> FieldsPerRecord r > 0 \<Longrightarrow>
     \<exists>new. out = acc @ new \<and> (\<forall>x\<in>set new. int (length x) = FieldsPerRecord r)"
proof (induction r acc arbitrary: out rule: readAll_loop.induct)
  case (1 r records)
  note pos = \<open>FieldsPerRecord r > 0\<close>
  show ?case
  proof (cases "readRecord r")
    case (Inl e)
    with "1.prems" show ?thesis by (simp add: readAll_loop.simps [of r])
  next
    case (Inr opt)
    show ?thesis
    proof (cases opt)
      case None
      with Inr "1.prems" show ?thesis by (simp add: readAll_loop.simps [of r])
    next
      case (Some p)
      obtain dst r' where p: "p = (dst, r')" by (cases p)
      from Inr Some p have rr: "readRecord r = Inr (Some (dst, r'))" by simp
      from readRecord_strict [OF rr pos]
      have len: "int (length dst) = FieldsPerRecord r" and same: "FieldsPerRecord r' = FieldsPerRecord r"
        by simp_all
      from rr "1.prems" have "readAll_loop r' (records @ [dst]) = Inr out"
        by (simp add: readAll_loop.simps [of r])
      from "1.IH" [OF Inr Some p [symmetric] this] pos same
      obtain new where "out = (records @ [dst]) @ new"
        and "\<forall>x\<in>set new. int (length x) = FieldsPerRecord r"
        by auto
      with len show ?thesis by (intro exI [of _ "dst # new"]) simp
    qed
  qed
qed

lemma ReadAll_uniform:
  assumes "ReadAll (NewReader data) = Inr (H # rows)"
  shows "\<forall>x\<in>set rows. length x = length H"
proof -
  let ?r = "NewReader data"
  have zero: "FieldsPerRecord ?r = 0" by (simp add: NewReader_def)
  from assms have loop: "readAll_loop ?r [] = Inr (H # rows)" by (simp add: ReadAll_def)
  show ?thesis
  proof (cases "readRecord ?r")
    case (Inl e)
    with loop show ?thesis by (simp add: readAll_loop.simps [of ?r])
  next
    case (Inr opt)
    show ?thesis
    proof (cases opt)
      case None
      with Inr loop show ?thesis by (simp add: readAll_loop.simps [of ?r])
    next
      case (Some p)
      obtain dst r' where p: "p = (dst, r')" by (cases p)
      from Inr Some p have rr: "readRecord ?r = Inr (Some (dst, r'))" by simp
      from readRecord_first [OF rr zero]
      have fpr: "FieldsPerRecord r' = int (length dst)" and ne: "dst \<noteq> []" by simp_all
      then have pos: "FieldsPerRecord r' > 0" by simp
      from rr loop have "readAll_loop r' [dst] = Inr (H # rows)"
        by (simp add: readAll_loop.simps [of ?r])
      from readAll_loop_strict [OF this pos] fpr show ?thesis by auto
    qed
  qed
qed

section \<open>Properties of the column loops\<close>

lemma append_column_eq:
  "append_column i col (result(col \<mapsto> vs)) rows = result(col \<mapsto> vs @ column i rows)"
  unfolding append_column_def column_def
  by (induction rows arbitrary: vs) auto

lemma fill_columns_snoc:
  "fill_columns (header @ [col]) rows =
     (fill_columns header rows)(col \<mapsto> column (length header) rows)"
  by (simp add: fill_columns_def enumerate_append_eq append_column_eq [where vs = "[]", simplified])

lemma fill_columns_Nil: "fill_columns [] rows = Map.empty"
  by (simp add: fill_columns_def)

lemma dom_fill_columns: "dom (fill_columns header rows) = set header"
proof (induction header rule: rev_induct)
  case Nil
  show ?case by (simp add: fill_columns_Nil)
next
  case (snoc x xs)
  have "dom (fill_columns (xs @ [x]) rows) = insert x (dom (fill_columns xs rows))"
    unfolding fill_columns_snoc by simp
  with snoc.IH show ?case by simp
qed

lemma fill_columns_last:
  assumes "i < length header" "header ! i = col"
    and "\<forall>j. i < j \<and> j < length header \<longrightarrow> header ! j \<noteq> col"
  shows "fill_columns header rows col = Some (column i rows)"
  using assms
proof (induction header rule: rev_induct)
  case Nil
  then show ?case by simp
next
  case (snoc x xs)
  show ?case
  proof (cases "i = length xs")
    case True
    with snoc.prems show ?thesis by (simp add: fill_columns_snoc)
  next
    case False
    with snoc.prems have i: "i < length xs" by simp
    with snoc.prems have xi: "xs ! i = col" by (simp add: nth_append)
    have "x \<noteq> col"
      using snoc.prems(3) [rule_format, of "length xs"] i by simp
    moreover have "\<forall>j. i < j \<and> j < length xs \<longrightarrow> xs ! j \<noteq> col"
    proof (intro allI impI)
      fix j assume j: "i < j \<and> j < length xs"
      with snoc.prems(3) [rule_format, of j] show "xs ! j \<noteq> col" by (simp add: nth_append)
    qed
    ultimately show ?thesis
      using snoc.IH [OF i xi] by (simp add: fill_columns_snoc)
  qed
qed

lemma length_column_le: "length (column i rows) \<le> length rows"
  by (simp add: column_def)

lemma column_rect:
  "\<forall>record\<in>set rows. i < length record \<Longrightarrow> column i rows = map (\<lambda>record. record ! i) rows"
  by (simp add: column_def filter_id_conv cong: map_cong)

lemma fill_columns_Some:
  "fill_columns header rows col = Some vs \<Longrightarrow> \<exists>i<length header. header ! i = col \<and> vs = column i rows"
  by (induction header arbitrary: vs rule: rev_induct)
     (auto simp: fill_columns_Nil fill_columns_snoc nth_append split: if_splits)

section \<open>Properties of the retry loop\<close>

lemma on_wire_request_after:
  "on_wire (request_after data token n) = (wire data token n, request_after data token (Suc n))"
  by (simp add: on_wire_def request_after_def wire_def io_ReadAll_def)

lemma Client_Do_request_after:
  "Client_Do env i (request_after data token n) =
     (RoundTrip env i (wire data token n), wire data token n, request_after data token (Suc n))"
  by (simp add: Client_Do_def on_wire_request_after)

lemma estimated_time_warming:
  "warming_up env resp t \<Longrightarrow> fst (estimated_time env resp) = Some t"
  by (auto simp: warming_up_def estimated_time_def io_ReadAll_def split: sum.splits)

lemma estimated_time_Some:
  "fst (estimated_time env resp) = Some t \<Longrightarrow> warming_up env resp t"
  by (auto simp: warming_up_def estimated_time_def io_ReadAll_def
      split: sum.splits if_splits option.splits json_value.splits)

lemma StatusOK_neq: "StatusServiceUnavailable \<noteq> StatusOK"
  by (simp add: StatusOK_def StatusServiceUnavailable_def)

lemma retry_loop_warm_step:
  assumes "i < maxRetries"
    and "RoundTrip env i (wire data token i) = Inr resp"
    and "warming_up env resp t"
  shows "retry_loop env i (request_after data token i) tr =
         retry_loop env (Suc i) (request_after data token (Suc i))
           (tr @ attempt_events env (wire data token i) t)"
proof -
  from assms(3) have st: "StatusCode resp \<noteq> StatusOK"
    using StatusOK_neq by (simp add: warming_up_def)
  obtain resp' where et: "estimated_time env resp = (Some t, resp')"
    using estimated_time_warming [OF assms(3)] by (cases "estimated_time env resp") simp
  show ?thesis
    using assms(1,2) st et
    by (simp add: retry_loop.simps [of env i] Client_Do_request_after attempt_events_def)
qed

lemma retry_loop_warm:
  assumes "\<forall>n. i \<le> n \<and> n < k \<longrightarrow>
             (\<exists>resp. RoundTrip env n (wire data token n) = Inr resp \<and> warming_up env resp (ts n))"
    and "i \<le> k" and "k \<le> maxRetries"
  shows "retry_loop env i (request_after data token i) tr =
         retry_loop env k (request_after data token k)
           (tr @ concat (map (\<lambda>n. attempt_events env (wire data token n) (ts n)) [i..<k]))"
  using assms
proof (induction "k - i" arbitrary: i tr)
  case 0
  then show ?case by simp
next
  case (Suc d)
  then have lt: "i < k" and im: "i < maxRetries" by simp_all
  from Suc.prems(1) lt obtain resp where
    r: "RoundTrip env i (wire data token i) = Inr resp" and w: "warming_up env resp (ts i)"
    by auto
  have step: "retry_loop env i (request_after data token i) tr =
         retry_loop env (Suc i) (request_after data token (Suc i))
           (tr @ attempt_events env (wire data token i) (ts i))"
    by (rule retry_loop_warm_step [OF im r w])
  have d: "d = k - Suc i" using Suc.hyps(2) by simp
  have rest: "retry_loop env (Suc i) (request_after data token (Suc i))
                (tr @ attempt_events env (wire data token i) (ts i)) =
         retry_loop env k (request_after data token k)
           ((tr @ attempt_events env (wire data token i) (ts i)) @
            concat (map (\<lambda>n. attempt_events env (wire data token n) (ts n)) [Suc i..<k]))"
    using Suc.prems lt by (intro Suc.hyps(1) [OF d]) auto
  show ?case
    using lt by (simp add: step rest upt_conv_Cons)
qed

lemma ConnectAIModel_start:
  assumes "json_Marshal env payload = Inr data"
  shows "ConnectAIModel env payload token = retry_loop env 0 (request_after data token 0) []"
  using assms
  by (simp add: ConnectAIModel_def http_NewRequest_def Header_Set_def NewBuffer_def
      request_after_def)

lemma retry_loop_exhausted: "retry_loop env maxRetries req tr = (Inl MaxRetries, tr)"
  by (simp add: retry_loop.simps [of env maxRetries])

lemma requests_attempts:
  "requests (concat (map (\<lambda>n. attempt_events env (w n) (ts n)) ns)) = map w ns"
  by (induction ns) (simp_all add: requests_def attempt_events_def)

lemma sleeps_attempts:
  "sleeps (concat (map (\<lambda>n. attempt_events env (w n) (ts n)) ns)) =
     map (\<lambda>n. time_Duration env (ts n) * time_Second) ns"
  by (induction ns) (simp_all add: sleeps_def attempt_events_def)

lemma retry_loop_transport_error:
  assumes "i < maxRetries" and "RoundTrip env i (wire data token i) = Inl err"
  shows "retry_loop env i (request_after data token i) tr =
           (Inl err, tr @ [Issued (wire data token i)])"
  using assms by (simp add: retry_loop.simps [of env i] Client_Do_request_after)

lemma retry_loop_ok:
  assumes "i < maxRetries" and "RoundTrip env i (wire data token i) = Inr resp"
    and "StatusCode resp = StatusOK"
  shows "retry_loop env i (request_after data token i) tr =
           (case json_Decode_Response env (fst (io_ReadAll (Body resp))) of
              Inl err \<Rightarrow> Inl err | Inr r \<Rightarrow> Inr r,
            tr @ [Issued (wire data token i)])"
  using assms
  by (simp add: retry_loop.simps [of env i] Client_Do_request_after split: sum.splits)

lemma retry_loop_terminal_status:
  assumes "i < maxRetries" and "RoundTrip env i (wire data token i) = Inr resp"
    and "StatusCode resp \<noteq> StatusOK" and "fst (estimated_time env resp) = None"
  shows "retry_loop env i (request_after data token i) tr =
           (Inl (StatusError (Status resp)
                   (if StatusCode resp = StatusServiceUnavailable then []
                    else fst (io_ReadAll (Body resp)))),
            tr @ [Issued (wire data token i)])"
proof -
  obtain resp' where et: "estimated_time env resp = (None, resp')"
    using assms(4) by (cases "estimated_time env resp") simp
  have "fst (io_ReadAll (Body resp')) =
          (if StatusCode resp = StatusServiceUnavailable then []
           else fst (io_ReadAll (Body resp)))"
    using et by (auto simp: estimated_time_def io_ReadAll_def split: if_splits)
  then show ?thesis
    using assms(1,2,3) et
    by (simp add: retry_loop.simps [of env i] Client_Do_request_after)
qed


section \<open>CsvToSlice behind the reader\<close>

text \<open>
  The loops of lines 54 to 61 on any records, ragged ones included: the keys are the
  header's field names, no column is longer than the number of data rows, and every
  column has that length when no data row is shorter than the header.
\<close>

lemma fill_columns_keys_and_lengths:
  "dom (fill_columns H rows) = set H \<and>
   (\<forall>col vs. fill_columns H rows col = Some vs \<longrightarrow> length vs \<le> length rows) \<and>
   ((\<forall>record\<in>set rows. length H \<le> length record) \<longrightarrow>
      (\<forall>col vs. fill_columns H rows col = Some vs \<longrightarrow> length vs = length rows))"
proof -
  have le: "length vs \<le> length rows" if "fill_columns H rows col = Some vs" for col vs
    using fill_columns_Some [OF that] length_column_le by auto
  have eq: "length vs = length rows"
    if rect: "\<forall>record\<in>set rows. length H \<le> length record"
      and some: "fill_columns H rows col = Some vs" for col vs
  proof -
    from fill_columns_Some [OF some] obtain i where i: "i < length H" "vs = column i rows"
      by blast
    with rect have "column i rows = map (\<lambda>record. record ! i) rows"
      by (intro column_rect) auto
    with i show ?thesis by simp
  qed
  show ?thesis using dom_fill_columns [of H rows] le eq by blast
qed

text \<open>
  When the reader with its field-count check off accepts the whole input and some data
  row is shorter than the header, \<^verbatim>\<open>CsvToSlice\<close> returns the field-count error.
\<close>

lemma CsvToSlice_short_row_error:
  assumes "ReadAll ((NewReader data)\<lparr>FieldsPerRecord := -1\<rparr>) = Inr (H # rows)"
    and "\<exists>record\<in>set rows. length record < length H"
  shows "CsvToSlice data = Inl (CsvParseError ErrFieldCount)"
proof -
  from assms(2) obtain r where "r \<in> set rows" and "length r < length H" by blast
  then have "r \<in> set rows" and "length r \<noteq> length H" by simp_all
  then have "\<not> (\<forall>x\<in>set rows. length x = length H)" by blast
  with ReadAll_strict_of_lenient [OF assms(1)]
  have "ReadAll (NewReader data) = Inl ErrFieldCount" by simp
  then show ?thesis by (simp add: CsvToSlice_def)
qed

text \<open>
  On an input that the reader of \<^verbatim>\<open>CsvToSlice\<close> accepts, the table has the header's field
  names as keys and columns of at most as many cells as there are data rows.
\<close>

lemma CsvToSlice_accepted_input:
  assumes "ReadAll (NewReader data) = Inr (H # rows)"
  shows "\<exists>t. CsvToSlice data = Inr t \<and> dom t = set H \<and>
           (\<forall>col vs. t col = Some vs \<longrightarrow> length vs \<le> length rows) \<and>
           ((\<forall>record\<in>set rows. length record = length H) \<longrightarrow>
              (\<forall>col vs. t col = Some vs \<longrightarrow> length vs = length rows))"
proof -
  have t: "CsvToSlice data = Inr (fill_columns H rows)"
    using assms by (simp add: CsvToSlice_def)
  have le: "length vs \<le> length rows" if "fill_columns H rows col = Some vs" for col vs
    using fill_columns_Some [OF that] length_column_le by auto
  have eq: "length vs = length rows"
    if rect: "\<forall>record\<in>set rows. length record = length H"
      and some: "fill_columns H rows col = Some vs" for col vs
  proof -
    from fill_columns_Some [OF some] obtain i where i: "i < length H" "vs = column i rows"
      by blast
    with rect have "column i rows = map (\<lambda>record. record ! i) rows"
      by (intro column_rect) simp
    with i show ?thesis by simp
  qed
  show ?thesis
    using t dom_fill_columns [of H rows] le eq by blast
qed

section \<open>The example runs\<close>

lemma ReadAll_ragged_lenient:
  "ReadAll ((NewReader ragged_csv)\<lparr>FieldsPerRecord := -1\<rparr>) =
     Inr [[''city'', ''kwh''], [''A'', ''10''], [''B'']]"
  by code_simp

lemma ReadAll_short_row_lenient:
  "ReadAll ((NewReader short_row_csv)\<lparr>FieldsPerRecord := -1\<rparr>) =
     Inr [[''a'', ''b'', ''c''], [''1'', ''2'', ''3''], [''4'', ''5'']]"
  by code_simp

lemma ReadAll_duplicate:
  "ReadAll (NewReader duplicate_csv) = Inr [[''a'', ''b'', ''a''], [''1'', ''2'', ''3''], [''4'', ''5'', ''6'']]"
  by code_simp

lemma ReadAll_unclosed: "ReadAll (NewReader unclosed_csv) = Inl ErrQuote"
  by code_simp

lemma ReadAll_blank: "ReadAll (NewReader [NL, CR, NL]) = Inr []"
  by code_simp

lemma ReadAll_empty: "ReadAll (NewReader []) = Inr []"
  by code_simp

lemma example_Marshal: "json_Marshal (example_env rt) example_payload = Inr example_data"
  by (simp add: example_env_def)

lemma example_warming: "warming_up (example_env rt) warming (1 / 2)"
  by (simp add: warming_up_def warming_def response_def example_env_def io_ReadAll_def
      NewBuffer_def StatusServiceUnavailable_def)

lemma example_first_warming:
  "\<forall>n<1. \<exists>resp. RoundTrip (example_env (warming_then r)) n (wire example_data token n) = Inr resp \<and>
      warming_up (example_env (warming_then r)) resp (1 / 2)"
  using example_warming [of "warming_then r"]
  by (simp add: example_env_def warming_then_def)

lemma example_then: "RoundTrip (example_env (warming_then r)) 1 w = r"
  by (simp add: example_env_def warming_then_def)

lemma one_less_maxRetries: "1 < maxRetries"
  by (simp add: maxRetries_def)

lemma example_run_ok:
  "ConnectAIModel (example_env (warming_then (Inr (response 200 ''200 OK'' ok_body))))
       example_payload ''hf_token'' =
     (Inr ok_response,
      [Issued (wire example_data ''hf_token'' 0), Logged (1 / 2),
       Slept (time_Duration (example_env (warming_then (Inr (response 200 ''200 OK'' ok_body)))) (1 / 2) * time_Second),
       Issued (wire example_data ''hf_token'' 1)])"
proof -
  let ?env = "example_env (warming_then (Inr (response 200 ''200 OK'' ok_body)))"
  have "ConnectAIModel ?env example_payload ''hf_token'' =
          retry_loop ?env 1 (request_after example_data ''hf_token'' 1)
            (attempt_events ?env (wire example_data ''hf_token'' 0) (1 / 2))"
    using retry_loop_warm [of 0 1 ?env example_data "''hf_token''" "\<lambda>n. 1 / 2" "[]"]
      example_first_warming [of "Inr (response 200 ''200 OK'' ok_body)" "''hf_token''"]
      one_less_maxRetries
    by (simp add: ConnectAIModel_start [OF example_Marshal])
  also have "\<dots> = (Inr ok_response,
      attempt_events ?env (wire example_data ''hf_token'' 0) (1 / 2) @
      [Issued (wire example_data ''hf_token'' 1)])"
  proof -
    have rt: "RoundTrip ?env 1 (wire example_data ''hf_token'' 1) =
                Inr (response 200 ''200 OK'' ok_body)"
      by (rule example_then)
    have st: "StatusCode (response 200 ''200 OK'' ok_body) = StatusOK"
      by (simp add: response_def StatusOK_def)
    have dec: "json_Decode_Response ?env
                 (fst (io_ReadAll (Body (response 200 ''200 OK'' ok_body)))) = Inr ok_response"
      by (simp add: example_env_def response_def io_ReadAll_def NewBuffer_def)
    show ?thesis
      by (simp only: retry_loop_ok [OF one_less_maxRetries rt st] dec sum.case)
  qed
  finally show ?thesis by (simp add: attempt_events_def)
qed

lemma half_second: "time_Duration env (1 / 2) * time_Second = 0"
proof -
  have "\<lfloor>1 / 2 :: rat\<rfloor> = 0" by (simp add: floor_eq_iff)
  then show ?thesis by (simp add: time_Duration_def trunc_def)
qed

lemma example_always_warming:
  "\<forall>n<maxRetries. \<exists>resp. RoundTrip (example_env always_warming) n (wire example_data token n) = Inr resp \<and>
      warming_up (example_env always_warming) resp (1 / 2)"
  using example_warming [of always_warming]
  by (simp add: example_env_def always_warming_def)


section \<open>Properties of the JSON encoding\<close>

lemma chr_byte [simp]: "chr (byte c) = c"
  by (simp add: chr_def byte_def)

lemma byte_less_256: "byte c < 256"
  by (simp add: byte_def)

lemma hexval_hex: "n < 16 \<Longrightarrow> hexval (hex n) = Some n"
proof -
  assume "n < 16"
  then have "n \<in> {0, 1, 2, 3, 4, 5, 6, 7, 8, 9, 10, 11, 12, 13, 14, 15}" by simp arith
  then show ?thesis
    by (auto simp: hex_def hexval_def byte_def)
qed

lemma getu4_00:
  assumes "n < 256"
  shows "getu4 ([BS] @ ''u00'' @ [hex (n div 16), hex (n mod 16)] @ rest) = Some n"
proof -
  have a: "hexval (hex (n div 16)) = Some (n div 16)" using assms by (intro hexval_hex) simp
  have b: "hexval (hex (n mod 16)) = Some (n mod 16)" by (intro hexval_hex) simp
  have z: "hexval CHR ''0'' = Some 0" by (simp add: hexval_def byte_def)
  show ?thesis by (simp add: getu4_def a b z)
qed

lemma EncodeRune_ascii: "byte c < 0x80 \<Longrightarrow> EncodeRune (byte c) = [c]"
  by (simp add: EncodeRune_def)

text \<open>Shape of a valid multi-byte sequence.\<close>

lemma DecodeRune_valid_cases:
  assumes "DecodeRune (c0 # t) = (r, k)" and "\<not> byte c0 < 0x80" and "\<not> (r = RuneError \<and> k = 1)"
  obtains
    (two) c1 u where "t = c1 # u" "k = 2" "0xC2 \<le> byte c0" "byte c0 < 0xE0"
      "0x80 \<le> byte c1" "byte c1 \<le> 0xBF" "r = (byte c0 mod 32) * 64 + byte c1 mod 64"
  | (three) c1 c2 u where "t = c1 # c2 # u" "k = 3" "0xE0 \<le> byte c0" "byte c0 < 0xF0"
      "(if byte c0 = 0xE0 then 0xA0 else 0x80) \<le> byte c1"
      "byte c1 \<le> (if byte c0 = 0xED then 0x9F else 0xBF)"
      "0x80 \<le> byte c2" "byte c2 \<le> 0xBF"
      "r = (byte c0 mod 16) * 4096 + (byte c1 mod 64) * 64 + byte c2 mod 64"
  | (four) c1 c2 c3 u where "t = c1 # c2 # c3 # u" "k = 4" "0xF0 \<le> byte c0" "byte c0 \<le> 0xF4"
      "(if byte c0 = 0xF0 then 0x90 else 0x80) \<le> byte c1"
      "byte c1 \<le> (if byte c0 = 0xF4 then 0x8F else 0xBF)"
      "0x80 \<le> byte c2" "byte c2 \<le> 0xBF" "0x80 \<le> byte c3" "byte c3 \<le> 0xBF"
      "r = (byte c0 mod 8) * 262144 + (byte c1 mod 64) * 4096 + (byte c2 mod 64) * 64 +
           byte c3 mod 64"
proof -
  from assms(1,2,3) have range: "0xC2 \<le> byte c0" "byte c0 \<le> 0xF4"
    by (auto simp: DecodeRune_def Let_def split: if_splits)
  consider "byte c0 < 0xE0" | "0xE0 \<le> byte c0" "byte c0 < 0xF0" | "0xF0 \<le> byte c0"
    by linarith
  then show thesis
  proof cases
    case 1
    with assms range obtain c1 u where t: "t = c1 # u"
      by (cases t) (auto simp: DecodeRune_def Let_def split: if_splits)
    show ?thesis
      by (rule two [of c1 u], rule t)
         (use assms range 1 in \<open>auto simp: t DecodeRune_def Let_def split: if_splits\<close>)
  next
    case 2
    with assms range obtain c1 c2 u where t: "t = c1 # c2 # u"
      by (cases t; cases "tl t") (auto simp: DecodeRune_def Let_def split: if_splits)
    show ?thesis
      by (rule three [of c1 c2 u], rule t)
         (use assms range 2 in \<open>auto simp: t DecodeRune_def Let_def split: if_splits\<close>)
  next
    case 3
    with assms range obtain c1 c2 c3 u where t: "t = c1 # c2 # c3 # u"
      by (cases t; cases "tl t"; cases "tl (tl t)")
         (auto simp: DecodeRune_def Let_def split: if_splits)
    show ?thesis
      by (rule four [of c1 c2 c3 u], rule t)
         (use assms range 3 in \<open>auto simp: t DecodeRune_def Let_def split: if_splits\<close>)
  qed
qed

lemma mod_mult_add_less: "x < n \<Longrightarrow> (k * n + x) mod n = (x::nat)" by simp
lemma div_mult_add_less: "x < n \<Longrightarrow> (k * n + x) div n = (k::nat)" by simp

lemma two_arith:
  fixes a b :: nat
  assumes "194 \<le> a" "a < 224" "128 \<le> b" "b \<le> 191"
  shows "128 \<le> a mod 32 * 64 + b mod 64 \<and> a mod 32 * 64 + b mod 64 < 2048 \<and>
    192 + (a mod 32 * 64 + b mod 64) div 64 = a \<and> 128 + (a mod 32 * 64 + b mod 64) mod 64 = b"
proof -
  obtain a' where a: "a = 192 + a'" using le_Suc_ex [of 192 a] assms(1) by auto
  obtain b' where b: "b = 128 + b'" using le_Suc_ex [OF assms(3)] by auto
  from assms a b have a': "2 \<le> a'" "a' < 32" and b': "b' < 64" by simp_all
  have am: "a mod 32 = a'" using mod_mult_add_less [OF a'(2), of 6] by (simp add: a)
  have bm: "b mod 64 = b'" using mod_mult_add_less [OF b', of 2] by (simp add: b)
  have "(a' * 64 + b') div 64 = a'" by (rule div_mult_add_less [OF b'])
  moreover have "(a' * 64 + b') mod 64 = b'" by (rule mod_mult_add_less [OF b'])
  ultimately show ?thesis using a' b' by (simp add: am bm) (simp add: a b)
qed

lemma three_arith:
  fixes a b c :: nat
  assumes "224 \<le> a" "a < 240" "(if a = 224 then 160 else 128) \<le> b"
    "b \<le> (if a = 237 then 159 else 191)" "128 \<le> c" "c \<le> 191"
  shows "2048 \<le> a mod 16 * 4096 + b mod 64 * 64 + c mod 64 \<and>
    a mod 16 * 4096 + b mod 64 * 64 + c mod 64 < 65536 \<and>
    \<not> (55296 \<le> a mod 16 * 4096 + b mod 64 * 64 + c mod 64 \<and>
        a mod 16 * 4096 + b mod 64 * 64 + c mod 64 \<le> 57343) \<and>
    224 + (a mod 16 * 4096 + b mod 64 * 64 + c mod 64) div 4096 = a \<and>
    128 + (a mod 16 * 4096 + b mod 64 * 64 + c mod 64) div 64 mod 64 = b \<and>
    128 + (a mod 16 * 4096 + b mod 64 * 64 + c mod 64) mod 64 = c"
proof -
  have b128: "128 \<le> b" using assms(3) by (simp split: if_splits)
  obtain a' where a: "a = 224 + a'" using le_Suc_ex [OF assms(1)] by auto
  obtain b' where b: "b = 128 + b'" using le_Suc_ex [OF b128] by auto
  obtain c' where c: "c = 128 + c'" using le_Suc_ex [OF assms(5)] by auto
  from assms a b c have a': "a' < 16" and b': "b' < 64" and c': "c' < 64"
    by (simp_all split: if_splits)
  have lo: "a' = 0 \<Longrightarrow> 32 \<le> b'" and hi: "a' = 13 \<Longrightarrow> b' < 32"
    using assms(3,4) a b by (simp_all split: if_splits)
  have am: "a mod 16 = a'" using mod_mult_add_less [OF a', of 14] by (simp add: a)
  have bm: "b mod 64 = b'" using mod_mult_add_less [OF b', of 2] by (simp add: b)
  have cm: "c mod 64 = c'" using mod_mult_add_less [OF c', of 2] by (simp add: c)
  let ?r = "a' * 4096 + b' * 64 + c'"
  have low: "b' * 64 + c' < 4096" using b' c' by simp
  have r1: "?r div 4096 = a'" using div_mult_add_less [OF low, of a'] by (simp add: add.assoc)
  have r2: "?r mod 64 = c'" using mod_mult_add_less [OF c', of "a' * 64 + b'"] by (simp add: algebra_simps)
  have r3: "?r div 64 = a' * 64 + b'" using div_mult_add_less [OF c', of "a' * 64 + b'"] by (simp add: algebra_simps)
  have r4: "(a' * 64 + b') mod 64 = b'" by (rule mod_mult_add_less [OF b'])
  have ge: "2048 \<le> ?r" using lo [of] b' by (cases "a' = 0") simp_all
  have lt: "?r < 65536" using a' low by simp
  have ns: "\<not> (55296 \<le> ?r \<and> ?r \<le> 57343)"
  proof (cases "a' = 13")
    case True with hi c' show ?thesis by simp
  next
    case False
    then consider "a' \<le> 12" | "14 \<le> a'" by linarith
    then show ?thesis using low by cases simp_all
  qed
  show ?thesis using ge lt ns r1 r2 r3 r4 by (simp add: am bm cm) (simp add: a b c)
qed

lemma four_arith:
  fixes a b c d :: nat
  assumes "240 \<le> a" "a \<le> 244" "(if a = 240 then 144 else 128) \<le> b"
    "b \<le> (if a = 244 then 143 else 191)" "128 \<le> c" "c \<le> 191" "128 \<le> d" "d \<le> 191"
  shows "65536 \<le> a mod 8 * 262144 + b mod 64 * 4096 + c mod 64 * 64 + d mod 64 \<and>
    a mod 8 * 262144 + b mod 64 * 4096 + c mod 64 * 64 + d mod 64 \<le> 1114111 \<and>
    240 + (a mod 8 * 262144 + b mod 64 * 4096 + c mod 64 * 64 + d mod 64) div 262144 = a \<and>
    128 + (a mod 8 * 262144 + b mod 64 * 4096 + c mod 64 * 64 + d mod 64) div 4096 mod 64 = b \<and>
    128 + (a mod 8 * 262144 + b mod 64 * 4096 + c mod 64 * 64 + d mod 64) div 64 mod 64 = c \<and>
    128 + (a mod 8 * 262144 + b mod 64 * 4096 + c mod 64 * 64 + d mod 64) mod 64 = d"
proof -
  have b128: "128 \<le> b" using assms(3) by (simp split: if_splits)
  obtain a' where a: "a = 240 + a'" using le_Suc_ex [OF assms(1)] by auto
  obtain b' where b: "b = 128 + b'" using le_Suc_ex [OF b128] by auto
  obtain c' where c: "c = 128 + c'" using le_Suc_ex [OF assms(5)] by auto
  obtain d' where d: "d = 128 + d'" using le_Suc_ex [OF assms(7)] by auto
  from assms a b c d have a': "a' \<le> 4" and b': "b' < 64" and c': "c' < 64" and d': "d' < 64"
    by (simp_all split: if_splits)
  have lo: "a' = 0 \<Longrightarrow> 16 \<le> b'" and hi: "a' = 4 \<Longrightarrow> b' < 16"
    using assms(3,4) a b by (simp_all split: if_splits)
  have a8: "a' < 8" using a' by simp
  have am: "a mod 8 = a'" using mod_mult_add_less [OF a8, of 30] by (simp add: a)
  have bm: "b mod 64 = b'" using mod_mult_add_less [OF b', of 2] by (simp add: b)
  have cm: "c mod 64 = c'" using mod_mult_add_less [OF c', of 2] by (simp add: c)
  have dm: "d mod 64 = d'" using mod_mult_add_less [OF d', of 2] by (simp add: d)
  let ?r = "a' * 262144 + b' * 4096 + c' * 64 + d'"
  have low2: "c' * 64 + d' < 4096" using c' d' by simp
  have low3: "b' * 4096 + c' * 64 + d' < 262144" using b' low2 by simp
  have r1: "?r div 262144 = a'" using div_mult_add_less [OF low3, of a'] by (simp add: add.assoc)
  have r2: "?r div 4096 = a' * 64 + b'" using div_mult_add_less [OF low2, of "a' * 64 + b'"] by (simp add: algebra_simps)
  have r3: "?r div 64 = a' * 4096 + b' * 64 + c'" using div_mult_add_less [OF d', of "a' * 4096 + b' * 64 + c'"]
    by (simp add: algebra_simps)
  have r4: "?r mod 64 = d'" using mod_mult_add_less [OF d', of "a' * 4096 + b' * 64 + c'"] by (simp add: algebra_simps)
  have r5: "(a' * 64 + b') mod 64 = b'" by (rule mod_mult_add_less [OF b'])
  have r6: "(a' * 4096 + b' * 64 + c') mod 64 = c'" using mod_mult_add_less [OF c', of "a' * 64 + b'"]
    by (simp add: algebra_simps)
  have ge: "65536 \<le> ?r" using lo by (cases "a' = 0") simp_all
  have le: "?r \<le> 1114111"
  proof (cases "a' = 4")
    case True with hi [OF True] low2 show ?thesis by simp
  next
    case False with a' have "a' \<le> 3" by simp
    with low3 show ?thesis by simp
  qed
  show ?thesis using ge le r1 r2 r3 r4 r5 r6 by (simp add: am bm cm dm) (simp add: a b c d)
qed


lemma DecodeRune_EncodeRune:
  assumes "DecodeRune (c0 # t) = (r, k)" and "\<not> byte c0 < 0x80"
    and "\<not> (r = RuneError \<and> k = 1)"
  shows "EncodeRune r = take k (c0 # t) \<and> DecodeRune (take k (c0 # t) @ X) = (r, k) \<and>
         k \<le> length (c0 # t) \<and> 0 < k"
  using assms
proof (cases rule: DecodeRune_valid_cases)
  case (two c1 u)
  note ar = two_arith [OF two(3,4,5,6)]
  from ar have g: "128 \<le> r" "r < 2048" "192 + r div 64 = byte c0" "128 + r mod 64 = byte c1"
    by (simp_all add: two(7))
  have "EncodeRune r = [c0, c1]"
    using g by (simp add: EncodeRune_def)
  moreover have "DecodeRune (c0 # c1 # X) = (r, 2)"
    using two(3,4,5,6) by (simp add: DecodeRune_def Let_def two(7))
  ultimately show ?thesis by (simp add: two(1,2))
next
  case (three c1 c2 u)
  note ar = three_arith [OF three(3,4,5,6,7,8)]
  from ar have g: "2048 \<le> r" "r < 65536" "\<not> (55296 \<le> r \<and> r \<le> 57343)"
    "224 + r div 4096 = byte c0" "128 + r div 64 mod 64 = byte c1" "128 + r mod 64 = byte c2"
    by (simp_all add: three(9))
  have "EncodeRune r = [c0, c1, c2]"
    using g by (auto simp: EncodeRune_def)
  moreover have "DecodeRune (c0 # c1 # c2 # X) = (r, 3)"
    using three(3,4,5,6,7,8) by (simp add: DecodeRune_def Let_def three(9) split: if_splits)
  ultimately show ?thesis by (simp add: three(1,2))
next
  case (four c1 c2 c3 u)
  note ar = four_arith [OF four(3,4,5,6,7,8,9,10)]
  from ar have g: "65536 \<le> r" "r \<le> 1114111" "240 + r div 262144 = byte c0"
    "128 + r div 4096 mod 64 = byte c1" "128 + r div 64 mod 64 = byte c2"
    "128 + r mod 64 = byte c3"
    by (simp_all add: four(11))
  have "EncodeRune r = [c0, c1, c2, c3]"
    using g by (simp add: EncodeRune_def)
  moreover have "DecodeRune (c0 # c1 # c2 # c3 # X) = (r, 4)"
    using four(3,4,5,6,7,8,9,10)
    by (simp add: DecodeRune_def Let_def four(11) split: if_splits)
  ultimately show ?thesis by (simp add: four(1,2))
qed

lemma unquote_escapeByte:
  assumes "byte c < 0x80"
  shows "unquote (escapeByte c @ X) acc = unquote X (acc @ [c])"
proof -
  have nz: "byte c div 16 * 16 + byte c mod 16 = byte c" by simp
  consider (safe) "htmlSafe c"
    | (same) "\<not> htmlSafe c" "c = BS \<or> c = Quote"
    | (named) "\<not> htmlSafe c" "c \<in> {CHR 0x08, CHR 0x0C, CHR 0x0A, CHR 0x0D, CHR 0x09}"
    | (other) "\<not> htmlSafe c" "c \<noteq> BS" "c \<noteq> Quote"
        "c \<notin> {CHR 0x08, CHR 0x0C, CHR 0x0A, CHR 0x0D, CHR 0x09}"
    by blast
  then show ?thesis
  proof cases
    case safe
    then show ?thesis
      by (subst unquote.simps) (auto simp: escapeByte_def htmlSafe_def)
  next
    case same
    then show ?thesis
      by (subst unquote.simps) (auto simp: escapeByte_def BS_def Quote_def)
  next
    case named
    then show ?thesis
      by (subst unquote.simps) (auto simp: escapeByte_def BS_def Quote_def htmlSafe_def byte_def)
  next
    case other
    have e: "escapeByte c = [BS] @ ''u00'' @ [hex (byte c div 16), hex (byte c mod 16)]"
      using other by (simp add: escapeByte_def)
    have g: "getu4 ([BS] @ ''u00'' @ [hex (byte c div 16), hex (byte c mod 16)] @ X) = Some (byte c)"
      by (rule getu4_00) (rule byte_less_256)
    have ns: "\<not> IsSurrogate (byte c)" using assms by (simp add: IsSurrogate_def)
    show ?thesis
      unfolding e
      apply (subst unquote.simps)
      using g ns assms
      apply (simp add: BS_def Quote_def EncodeRune_def)
      done
  qed
qed

lemma unquote_rune:
  assumes "DecodeRune (c0 # t) = (r, k)" and "\<not> byte c0 < 0x80"
    and "\<not> (r = RuneError \<and> k = 1)"
  shows "unquote ((if r = 0x2028 \<or> r = 0x2029 then [BS] @ ''u202'' @ [hex (r mod 16)]
                   else take k (c0 # t)) @ X) acc =
         unquote X (acc @ take k (c0 # t))"
proof -
  note ed = DecodeRune_EncodeRune [OF assms, of X]
  show ?thesis
  proof (cases "r = 0x2028 \<or> r = 0x2029")
    case True
    then have g: "getu4 ([BS] @ ''u202'' @ [hex (r mod 16)] @ X) = Some r"
      by (auto simp: getu4_def hex_def hexval_def byte_def)
    from True have ns: "\<not> IsSurrogate r" by (auto simp: IsSurrogate_def)
    show ?thesis
      using True g ns ed
      by (subst unquote.simps) (auto simp: BS_def Quote_def)
  next
    case False
    from ed have k: "0 < k" "k \<le> length (c0 # t)" by simp_all
    then obtain u where tk: "take k (c0 # t) = c0 # u" by (cases k) auto
    have len: "length (take k (c0 # t)) = k" using k by simp
    have dr: "DecodeRune (c0 # u @ X) = (r, k)" using ed tk by simp
    have drop: "drop k (c0 # u @ X) = X" using len tk by (metis append_Cons append_eq_conv_conj)
    have c0: "c0 \<noteq> Quote" "c0 \<noteq> BS" "\<not> byte c0 < 0x20"
      using assms(2) by (auto simp: Quote_def BS_def byte_def)
    have "unquote (c0 # u @ X) acc = unquote X (acc @ EncodeRune r)"
      using c0 assms(2) dr drop by (subst unquote.simps) simp
    with False ed tk show ?thesis by simp
  qed
qed

lemma appendString_Nil: "appendString [] = []"
  by (simp add: appendString.simps)

lemma unquote_appendString:
  "ValidString s \<Longrightarrow> unquote (appendString s @ Quote # rest) acc = Some (acc @ s, rest)"
proof (induction s arbitrary: acc rule: length_induct)
  case (1 s)
  show ?case
  proof (cases s)
    case Nil
    then show ?thesis by (simp add: appendString_Nil unquote.simps [of "Quote # rest"])
  next
    case (Cons c t)
    show ?thesis
    proof (cases "byte c < 0x80")
      case True
      then have dr: "DecodeRune (c # t) = (byte c, 1)" by (simp add: DecodeRune_def)
      from "1.prems" have vt: "ValidString t"
        by (simp add: Cons ValidString.simps [of "c # t"] dr)
      have "unquote (appendString t @ Quote # rest) (acc @ [c]) = Some ((acc @ [c]) @ t, rest)"
        using "1.IH" vt Cons by simp
      moreover have "appendString s = escapeByte c @ appendString t"
        using True by (simp add: Cons appendString.simps [of "c # t"])
      ultimately show ?thesis
        using unquote_escapeByte [OF True, of "appendString t @ Quote # rest" acc]
        by (simp add: Cons)
    next
      case False
      obtain r k where dr: "DecodeRune (c # t) = (r, k)" by (cases "DecodeRune (c # t)")
      from "1.prems" have ok: "\<not> (r = RuneError \<and> k = 1)" and vt: "ValidString (drop k (c # t))"
        by (simp_all add: Cons ValidString.simps [of "c # t"] dr)
      from DecodeRune_EncodeRune [OF dr False ok] have k: "0 < k" "k \<le> length (c # t)"
        by simp_all
      then have shorter: "length (drop k (c # t)) < length s" by (simp add: Cons)
      have IH: "unquote (appendString (drop k (c # t)) @ Quote # rest) (acc @ take k (c # t)) =
                  Some ((acc @ take k (c # t)) @ drop k (c # t), rest)"
        using "1.IH" shorter vt by blast
      have app: "appendString (c # t) =
              (if r = 0x2028 \<or> r = 0x2029 then [BS] @ ''u202'' @ [hex (r mod 16)]
               else take k (c # t)) @ appendString (drop k (c # t))"
        using False ok by (auto simp: appendString.simps [of "c # t"] dr RuneError_def)
      show ?thesis
        using unquote_rune [OF dr False ok, of "appendString (drop k (c # t)) @ Quote # rest" acc] IH
        by (simp only: Cons app append_assoc append_take_drop_id)
    qed
  qed
qed

lemma decodeString_encodeString:
  "ValidString x \<Longrightarrow> decodeString (encodeString x @ rest) = Some (x, rest)"
  using unquote_appendString [of x rest "[]"]
  by (simp add: decodeString_def encodeString_def)

lemma encodeString_Cons: "encodeString x @ rest = Quote # appendString x @ Quote # rest"
  by (simp add: encodeString_def)

lemma decodeElems_encodeElems:
  "xs \<noteq> [] \<Longrightarrow> \<forall>x\<in>set xs. ValidString x \<Longrightarrow>
     decodeElems (encodeElems xs @ '']'' @ rest) acc = Some (acc @ xs, rest)"
proof (induction xs arbitrary: acc rule: encodeElems.induct)
  case 1
  then show ?case by simp
next
  case (2 x)
  then show ?case
    by (subst decodeElems.simps) (simp add: decodeString_encodeString)
next
  case (3 x y ys)
  have "decodeElems (encodeElems (y # ys) @ '']'' @ rest) (acc @ [x]) =
          Some ((acc @ [x]) @ y # ys, rest)"
    using 3 by simp
  with "3.prems" show ?case
    by (subst decodeElems.simps) (simp add: decodeString_encodeString)
qed

lemma encodeElems_starts: "xs \<noteq> [] \<Longrightarrow> \<exists>t. encodeElems xs @ rest = Quote # t"
  by (induction xs rule: encodeElems.induct) (simp_all add: encodeString_def)

lemma Quote_chars: "Quote \<noteq> CHR '']''" "Quote \<noteq> CHR ''}''"
  by (simp_all add: Quote_def)

lemma decodeSlice_encodeSlice:
  assumes "\<forall>x\<in>set xs. ValidString x"
  shows "decodeSlice (encodeSlice xs @ rest) = Some (xs, rest)"
proof (cases "xs = []")
  case True
  then show ?thesis by (simp add: decodeSlice_def encodeSlice_def)
next
  case False
  from encodeElems_starts [OF False, of "CHR '']'' # rest"] obtain t where
    t: "encodeElems xs @ CHR '']'' # rest = Quote # t" by blast
  have "decodeSlice (encodeSlice xs @ rest) = decodeElems (encodeElems xs @ '']'' @ rest) []"
    by (simp add: decodeSlice_def encodeSlice_def t Quote_chars)
  with decodeElems_encodeElems [OF False assms, of rest "[]"] show ?thesis by simp
qed

lemma decodeMember:
  assumes "ValidString k" and "\<forall>x\<in>set (cells m k). ValidString x"
  shows "decodeString (encodeMember m k @ rest) =
           Some (k, '':'' @ encodeSlice (cells m k) @ rest)"
    and "decodeSlice (encodeSlice (cells m k) @ rest) = Some (cells m k, rest)"
  using assms
  by (simp_all add: encodeMember_def cells_def [symmetric] decodeString_encodeString
      decodeSlice_encodeSlice)

lemma decodeMembers_encodeMembers:
  "ks \<noteq> [] \<Longrightarrow> \<forall>k\<in>set ks. ValidString k \<and> (\<forall>x\<in>set (cells m k). ValidString x) \<Longrightarrow>
     decodeMembers (encodeMembers m ks @ ''}'' @ rest) m0 =
       Some (foldl (put m) m0 ks, rest)"
proof (induction m ks arbitrary: m0 rule: encodeMembers.induct)
  case (1 m)
  then show ?case by simp
next
  case (2 m k)
  then show ?case
    by (subst decodeMembers.simps) (simp add: decodeMember put_def)
next
  case (3 m k k' ks)
  have "decodeMembers (encodeMembers m (k' # ks) @ ''}'' @ rest) (put m m0 k) =
          Some (foldl (put m) (put m m0 k) (k' # ks), rest)"
    using 3 by simp
  with "3.prems" show ?case
    by (subst decodeMembers.simps) (simp add: decodeMember put_def [symmetric])
qed

lemma foldl_upd:
  "foldl (put m) m0 ks = (\<lambda>x. if x \<in> set ks then Some (cells m x) else m0 x)"
  by (induction ks arbitrary: m0) (auto simp: fun_eq_iff put_def)

lemma encodeMembers_starts: "ks \<noteq> [] \<Longrightarrow> \<exists>t. encodeMembers m ks @ rest = Quote # t"
  by (induction m ks rule: encodeMembers.induct) (simp_all add: encodeMember_def encodeString_def)

lemma decodeMap_encodeMap:
  assumes "finite (dom m)"
    and "\<forall>k\<in>dom m. ValidString k \<and> (\<forall>x\<in>set (cells m k). ValidString x)"
  shows "decodeMap (encodeMap m @ rest) Map.empty = Some (m, rest)"
proof (cases "dom m = {}")
  case True
  then have "m = Map.empty" by simp
  then show ?thesis by (simp add: decodeMap_def encodeMap_def)
next
  case False
  let ?ks = "sorted_list_of_set (dom m)"
  have set: "set ?ks = dom m" using assms(1) by simp
  with False have ne: "?ks \<noteq> []" by (metis set_empty)
  from encodeMembers_starts [OF ne, of m "CHR ''}'' # rest"] obtain t where
    t: "encodeMembers m ?ks @ CHR ''}'' # rest = Quote # t" by blast
  have "decodeMap (encodeMap m @ rest) Map.empty =
          decodeMembers (encodeMembers m ?ks @ ''}'' @ rest) Map.empty"
    by (simp add: decodeMap_def encodeMap_def t Quote_chars)
  also have "\<dots> = Some (foldl (put m) Map.empty ?ks, rest)"
    using assms(2) set by (intro decodeMembers_encodeMembers [OF ne]) simp
  also have "foldl (put m) Map.empty ?ks = m"
    unfolding foldl_upd set by (auto simp: fun_eq_iff cells_def dom_def split: option.splits)
  finally show ?thesis .
qed

lemma ValidString_ascii: "\<forall>c\<in>set s. byte c < 0x80 \<Longrightarrow> ValidString s"
proof (induction s)
  case Nil
  show ?case by (simp add: ValidString.simps [of "[]"])
next
  case (Cons c t)
  then have "DecodeRune (c # t) = (byte c, 1)" by (simp add: DecodeRune_def)
  with Cons show ?case by (simp add: ValidString.simps [of "c # t"] RuneError_def)
qed

lemma valid_names: "ValidString ''table''" "ValidString ''query''"
  by (rule ValidString_ascii, simp add: byte_def)+

lemma json_Unmarshal_Marshal_shape:
  assumes "finite (dom m)"
    and "\<forall>k\<in>dom m. ValidString k \<and> (\<forall>x\<in>set (cells m k). ValidString x)"
    and "decodeString (E @ ''}'') = Some (x, ''}'')"
  shows "json_Unmarshal_Inputs
           (''{'' @ encodeString ''table'' @ '':'' @ encodeMap m @ '','' @
            encodeString ''query'' @ '':'' @ E @ ''}'') =
         Some \<lparr>Table = m, Query = x\<rparr>"
proof -
  let ?zero = "\<lparr>Table = Map.empty, Query = []\<rparr>"
  let ?R3 = "encodeString ''query'' @ '':'' @ E @ ''}''"
  let ?R1 = "encodeMap m @ '','' @ ?R3"
  let ?all = "encodeString ''table'' @ '':'' @ ?R1"
  have f2: "decodeField ''query'' (E @ ''}'') \<lparr>Table = m, Query = []\<rparr> =
              Some (\<lparr>Table = m, Query = x\<rparr>, ''}'')"
    using assms(3) by (simp add: decodeField_def)
  have s2: "decodeFields ?R3 \<lparr>Table = m, Query = []\<rparr> = Some \<lparr>Table = m, Query = x\<rparr>"
    using decodeString_encodeString [OF valid_names(2), of "'':'' @ E @ ''}''"] f2
    by (subst decodeFields.simps) simp
  have f1: "decodeField ''table'' ?R1 ?zero = Some (\<lparr>Table = m, Query = []\<rparr>, '','' @ ?R3)"
    using decodeMap_encodeMap [OF assms(1,2), of "'','' @ ?R3"]
    by (simp add: decodeField_def)
  have s1: "decodeFields ?all ?zero = Some \<lparr>Table = m, Query = x\<rparr>"
    using decodeString_encodeString [OF valid_names(1), of "'':'' @ ?R1"] f1 s2
    by (subst decodeFields.simps) simp
  have ne: "?all \<noteq> ''}''" by (simp add: encodeString_def Quote_def)
  show ?thesis
    using s1 ne by (simp add: json_Unmarshal_Inputs_def)
qed

lemma appendString_ascii:
  "byte c < 0x80 \<Longrightarrow> appendString (c # t) = escapeByte c @ appendString t"
  by (simp add: appendString.simps [of "c # t"])

lemma appendString_invalid:
  "\<not> byte c < 0x80 \<Longrightarrow> DecodeRune (c # t) = (RuneError, 1) \<Longrightarrow>
     appendString (c # t) = [BS] @ ''ufffd'' @ appendString t"
  by (simp add: appendString.simps [of "c # t"])

lemma appendString_safe: "\<forall>c\<in>set s. htmlSafe c \<Longrightarrow> appendString s = s"
proof (induction s)
  case Nil
  show ?case by (rule appendString_Nil)
next
  case (Cons c t)
  then have "byte c < 0x80" and "escapeByte c = [c]"
    by (simp_all add: htmlSafe_def escapeByte_def)
  with Cons show ?case by (simp add: appendString_ascii)
qed

lemma EncodeRune_RuneError: "EncodeRune RuneError = [CHR 0xEF, CHR 0xBF, CHR 0xBD]"
proof -
  have "char_of (239::nat) = char_of (of_char CHR 0xEF :: nat)"
    "char_of (191::nat) = char_of (of_char CHR 0xBF :: nat)"
    "char_of (189::nat) = char_of (of_char CHR 0xBD :: nat)"
    by simp_all
  then have "char_of (239::nat) = CHR 0xEF" "char_of (191::nat) = CHR 0xBF"
    "char_of (189::nat) = CHR 0xBD"
    by (simp_all only: char_of_char)
  then show ?thesis by (simp add: EncodeRune_def RuneError_def chr_def)
qed

lemma unquote_ufffd:
  "unquote ([BS] @ ''ufffd'' @ X) acc = unquote X (acc @ [CHR 0xEF, CHR 0xBF, CHR 0xBD])"
proof -
  have g: "getu4 ([BS] @ ''ufffd'' @ X) = Some RuneError"
    by (simp add: getu4_def hexval_def byte_def RuneError_def)
  have ns: "\<not> IsSurrogate RuneError" by (simp add: IsSurrogate_def RuneError_def)
  show ?thesis
    using g ns
    by (subst unquote.simps) (simp add: BS_def Quote_def EncodeRune_RuneError)
qed

lemma latin1_wire:
  "encodeString (''caf'' @ [CHR 0xE9]) = [Quote] @ ''caf'' @ [BS] @ ''ufffd'' @ [Quote]"
proof -
  have a: "appendString [CHR 0xE9] = [BS] @ ''ufffd''"
    by (subst appendString_invalid)
       (simp_all add: byte_def DecodeRune_def appendString_Nil)
  have e: "escapeByte CHR ''c'' = ''c''" "escapeByte CHR ''a'' = ''a''" "escapeByte CHR ''f'' = ''f''"
    by (simp_all add: escapeByte_def htmlSafe_def byte_def Quote_def BS_def)
  have "appendString (''caf'' @ [CHR 0xE9]) = ''caf'' @ [BS] @ ''ufffd''"
    by (simp add: appendString_ascii byte_def e a)
  then show ?thesis by (simp add: encodeString_def)
qed

lemma example_valid:
  "finite (dom (Table example_payload))"
  "\<forall>k\<in>dom (Table example_payload). ValidString k"
  "\<forall>vs\<in>ran (Table example_payload). \<forall>x\<in>set vs. ValidString x"
  "ValidString (Query example_payload)"
proof -
  have v: "ValidString ''city''" "ValidString ''kwh''" "ValidString ''A''" "ValidString ''B''"
    "ValidString ''10''" "ValidString ''20''" "ValidString ''total kwh?''"
    by (rule ValidString_ascii, simp add: byte_def)+
  show "finite (dom (Table example_payload))"
    by (simp add: example_payload_def example_table_def)
  show "\<forall>k\<in>dom (Table example_payload). ValidString k"
    using v by (simp add: example_payload_def example_table_def)
  show "\<forall>vs\<in>ran (Table example_payload). \<forall>x\<in>set vs. ValidString x"
    using v by (auto simp: example_payload_def example_table_def ran_def split: if_splits)
  show "ValidString (Query example_payload)"
    using v by (simp add: example_payload_def)
qed


lemma example_keys: "sorted_list_of_set (dom example_table) = [''city'', ''kwh'']"
proof -
  have "dom example_table = {''city'', ''kwh''}" by (auto simp: example_table_def)
  moreover have "sorted_list_of_set {''city'', ''kwh''} = [''city'', ''kwh'']"
    by simp
  ultimately show ?thesis by simp
qed

lemma encodeString_safe: "\<forall>c\<in>set s. htmlSafe c \<Longrightarrow> encodeString s = quoted s"
  by (simp add: encodeString_def quoted_def appendString_safe)

lemma example_wire_text: "json_Marshal_Inputs example_payload = example_data"
proof -
  have s: "encodeString ''table'' = quoted ''table''" "encodeString ''query'' = quoted ''query''"
    "encodeString ''city'' = quoted ''city''" "encodeString ''kwh'' = quoted ''kwh''"
    "encodeString ''A'' = quoted ''A''" "encodeString ''B'' = quoted ''B''"
    "encodeString ''10'' = quoted ''10''" "encodeString ''20'' = quoted ''20''"
    "encodeString ''total kwh?'' = quoted ''total kwh?''"
    by (rule encodeString_safe, simp add: htmlSafe_def byte_def Quote_def BS_def)+
  have c: "example_table ''city'' = Some [''A'', ''B'']" "example_table ''kwh'' = Some [''10'', ''20'']"
    by (simp_all add: example_table_def)
  show ?thesis
    by (simp add: json_Marshal_Inputs_def example_payload_def encodeMap_def example_keys
        encodeMember_def encodeSlice_def s c example_data_def)
qed


section \<open>The claims\<close>

text \<open>
  Claim C1. When every response is a 503 whose body carries a numeric \<^verbatim>\<open>estimated_time\<close>,
  \<^verbatim>\<open>ConnectAIModel\<close> issues a request, logs and sleeps, ten times over, and then returns
  the error "max retries reached"; the run holds exactly ten requests, so there is no
  eleventh. \<open>ts n\<close> is the \<^verbatim>\<open>estimated_time\<close> of the response to request \<open>n\<close>.
\<close>

theorem ConnectAIModel_max_retries:
  assumes "json_Marshal env payload = Inr data"
    and "\<forall>n<maxRetries. \<exists>resp. RoundTrip env n (wire data token n) = Inr resp \<and>
           warming_up env resp (ts n)"
  shows "ConnectAIModel env payload token =
           (Inl MaxRetries,
            concat (map (\<lambda>n. attempt_events env (wire data token n) (ts n)) [0..<10])) \<and>
         length (requests (snd (ConnectAIModel env payload token))) = 10 \<and>
         sleeps (snd (ConnectAIModel env payload token)) =
           map (\<lambda>n. time_Duration env (ts n) * time_Second) [0..<10] \<and>
         Error MaxRetries = ''max retries reached, failed to connect to AI model''"
proof -
  have ten: "maxRetries = 10" by (simp add: maxRetries_def)
  have run: "ConnectAIModel env payload token =
           (Inl MaxRetries,
            concat (map (\<lambda>n. attempt_events env (wire data token n) (ts n)) [0..<maxRetries]))"
    using retry_loop_warm [of 0 maxRetries env data token ts "[]"] assms(2)
    by (simp add: ConnectAIModel_start [OF assms(1)] retry_loop_exhausted)
  have "length (requests (snd (ConnectAIModel env payload token))) = 10"
    unfolding run snd_conv requests_attempts ten by simp
  moreover have "sleeps (snd (ConnectAIModel env payload token)) =
           map (\<lambda>n. time_Duration env (ts n) * time_Second) [0..<10]"
    unfolding run snd_conv sleeps_attempts ten by simp
  ultimately show ?thesis using run unfolding ten by simp
qed

theorem ConnectAIModel_max_retries_witness:
  "fst (ConnectAIModel (example_env always_warming) example_payload ''hf_token'') = Inl MaxRetries \<and>
   length (requests (snd (ConnectAIModel (example_env always_warming) example_payload ''hf_token''))) = 10"
proof -
  note run = ConnectAIModel_max_retries [OF example_Marshal [of always_warming]
      example_always_warming [of "''hf_token''"]]
  have "fst (ConnectAIModel (example_env always_warming) example_payload ''hf_token'') =
          Inl MaxRetries"
    by (simp only: run [THEN conjunct1] fst_conv)
  with run [THEN conjunct2, THEN conjunct1] show ?thesis by (rule conjI [rotated])
qed

text \<open>
  Claim C2, on the code. The header has two fields and the last data row has one. Read
  with the field-count check off, the input has three records, and on them the loops of
  lines 54 to 61 do what the claim says: the guard of line 57 leaves \<^verbatim>\<open>kwh\<close> one cell short.
  But \<^verbatim>\<open>CsvToSlice\<close> reads with the reader as \<^verbatim>\<open>csv.NewReader\<close> makes it, which rejects
  the short row, so the result is the error "wrong number of fields" and no table.
\<close>

theorem CsvToSlice_ragged_row_rejected:
  "ReadAll ((NewReader ragged_csv)\<lparr>FieldsPerRecord := -1\<rparr>) =
     Inr [[''city'', ''kwh''], [''A'', ''10''], [''B'']] \<and>
   length [''B''] < length [''city'', ''kwh''] \<and>
   CsvToSlice ragged_csv = Inl (CsvParseError ErrFieldCount) \<and>
   fill_columns [''city'', ''kwh''] [[''A'', ''10''], [''B'']] ''city'' = Some [''A'', ''B''] \<and>
   fill_columns [''city'', ''kwh''] [[''A'', ''10''], [''B'']] ''kwh'' = Some [''10'']"
proof -
  have "ReadAll (NewReader ragged_csv) = Inl ErrFieldCount" by code_simp
  then have "CsvToSlice ragged_csv = Inl (CsvParseError ErrFieldCount)"
    by (simp add: CsvToSlice_def)
  moreover have "fill_columns [''city'', ''kwh''] [[''A'', ''10''], [''B'']] ''city'' =
                   Some [''A'', ''B'']"
    by (subst fill_columns_last [where i = 0]) (simp_all add: column_def nth_Cons')
  moreover have "fill_columns [''city'', ''kwh''] [[''A'', ''10''], [''B'']] ''kwh'' =
                   Some [''10'']"
    by (subst fill_columns_last [where i = 1]) (simp_all add: column_def)
  ultimately show ?thesis by (simp add: ReadAll_ragged_lenient)
qed

text \<open>
  Claim C3, on the code: the first attempt is answered 503 with \<^verbatim>\<open>estimated_time\<close> 0.5, the
  second 200 with a valid body. The decoded response is returned, but the request sent by
  the retry has an empty body under the unchanged \<^verbatim>\<open>Content-Length\<close>: the body buffer built
  at line 74 was read to its end by the first attempt.
\<close>

theorem ConnectAIModel_retry_sends_drained_body:
  "fst (ConnectAIModel (example_env (warming_then (Inr (response 200 ''200 OK'' ok_body))))
          example_payload ''hf_token'') = Inr ok_response \<and>
   map wBody (requests (snd (ConnectAIModel
          (example_env (warming_then (Inr (response 200 ''200 OK'' ok_body))))
          example_payload ''hf_token''))) = [example_data, []] \<and>
   map wContentLength (requests (snd (ConnectAIModel
          (example_env (warming_then (Inr (response 200 ''200 OK'' ok_body))))
          example_payload ''hf_token''))) = [int (length example_data), int (length example_data)] \<and>
   example_data \<noteq> []"
  by (simp add: example_run_ok requests_def wire_def) (simp add: example_data_def)

text \<open>
  Claim C4, on the code: for an \<^verbatim>\<open>estimated_time\<close> of 0.5 the value logged is 0.5 and the
  argument of \<^verbatim>\<open>time.Sleep\<close> is 0 nanoseconds, on which it returns at once:
  \<^verbatim>\<open>time.Duration(estimatedTime)\<close> drops the fraction before the multiplication by
  \<^verbatim>\<open>time.Second\<close>.
\<close>

theorem ConnectAIModel_sleep_drops_fraction:
  "logged (snd (ConnectAIModel (example_env (warming_then (Inr (response 200 ''200 OK'' ok_body))))
          example_payload ''hf_token'')) = [1 / 2] \<and>
   sleeps (snd (ConnectAIModel (example_env (warming_then (Inr (response 200 ''200 OK'' ok_body))))
          example_payload ''hf_token'')) = [0] \<and>
   pause_ns 0 = 0"
  by (simp add: example_run_ok logged_def sleeps_def half_second pause_ns_def)

text \<open>
  Claim C5, on the code. The header has three fields and there are two data rows, the
  second with two fields. On the records read with the field-count check off the loops
  give the keys of the header and columns of 2, 2 and 1 cells, at most the number of data
  rows, as the claim says. \<^verbatim>\<open>CsvToSlice\<close> itself returns the reader's error "wrong number of
  fields" and no table: the same defect as in claim C2.
\<close>

theorem CsvToSlice_short_row_no_table:
  "ReadAll ((NewReader short_row_csv)\<lparr>FieldsPerRecord := -1\<rparr>) =
     Inr [[''a'', ''b'', ''c''], [''1'', ''2'', ''3''], [''4'', ''5'']] \<and>
   CsvToSlice short_row_csv = Inl (CsvParseError ErrFieldCount) \<and>
   dom (fill_columns [''a'', ''b'', ''c''] [[''1'', ''2'', ''3''], [''4'', ''5'']]) =
     set [''a'', ''b'', ''c''] \<and>
   map (\<lambda>col. map_option length
          (fill_columns [''a'', ''b'', ''c''] [[''1'', ''2'', ''3''], [''4'', ''5'']] col))
       [''a'', ''b'', ''c''] = [Some 2, Some 2, Some 1]"
proof -
  have "ReadAll (NewReader short_row_csv) = Inl ErrFieldCount" by code_simp
  then have a: "CsvToSlice short_row_csv = Inl (CsvParseError ErrFieldCount)"
    by (simp add: CsvToSlice_def)
  have c: "fill_columns [''a'', ''b'', ''c''] [[''1'', ''2'', ''3''], [''4'', ''5'']] ''a'' =
             Some [''1'', ''4'']"
    "fill_columns [''a'', ''b'', ''c''] [[''1'', ''2'', ''3''], [''4'', ''5'']] ''b'' =
             Some [''2'', ''5'']"
    "fill_columns [''a'', ''b'', ''c''] [[''1'', ''2'', ''3''], [''4'', ''5'']] ''c'' =
             Some [''3'']"
    by (subst fill_columns_last [where i = 0], simp_all add: column_def nth_Cons')
       (subst fill_columns_last [where i = 1], simp_all add: column_def nth_Cons',
        subst fill_columns_last [where i = 2], simp_all add: column_def nth_Cons')
  show ?thesis
    using a c dom_fill_columns [of "[''a'', ''b'', ''c'']"]
    by (simp add: ReadAll_short_row_lenient)
qed

text \<open>
  Claim C6. \<^verbatim>\<open>CsvToSlice\<close> fails on the empty string and on every input from which the
  reader returns no record ("no data found"), and it hands on every error of the reader,
  the two quoting errors among them; in each case no table is returned.
\<close>

theorem CsvToSlice_no_rows:
  "CsvToSlice [] = Inl NoDataFound \<and>
   (ReadAll (NewReader data) = Inr [] \<longrightarrow> CsvToSlice data = Inl NoDataFound) \<and>
   (ReadAll (NewReader data) = Inl e \<longrightarrow> CsvToSlice data = Inl (CsvParseError e))"
  by (simp add: CsvToSlice_def ReadAll_empty)

theorem CsvToSlice_no_rows_witness:
  "CsvToSlice [NL, CR, NL] = Inl NoDataFound \<and>
   CsvToSlice unclosed_csv = Inl (CsvParseError ErrQuote)"
  using CsvToSlice_no_rows [of "[NL, CR, NL]"] CsvToSlice_no_rows [of unclosed_csv ErrQuote]
    ReadAll_blank ReadAll_unclosed
  by blast

text \<open>
  Claim C7. A column name has one entry in the table, and its cells are those of the last
  position \<open>i\<close> at which the name stands in the header: with duplicates in the header the
  last one wins.
\<close>

theorem CsvToSlice_last_duplicate_wins:
  assumes "ReadAll (NewReader data) = Inr (H # rows)"
    and "i < length H" and "H ! i = col"
    and "\<forall>j. i < j \<and> j < length H \<longrightarrow> H ! j \<noteq> col"
  shows "\<exists>t. CsvToSlice data = Inr t \<and> t col = Some (map (\<lambda>record. record ! i) rows)"
proof -
  have t: "CsvToSlice data = Inr (fill_columns H rows)"
    using assms(1) by (simp add: CsvToSlice_def)
  from ReadAll_uniform [OF assms(1)] assms(2)
  have "column i rows = map (\<lambda>record. record ! i) rows"
    by (intro column_rect) simp
  with fill_columns_last [OF assms(2,3,4), of rows] t show ?thesis by simp
qed

theorem CsvToSlice_last_duplicate_wins_witness:
  "\<exists>t. CsvToSlice duplicate_csv = Inr t \<and> t ''a'' = Some [''3'', ''6'']"
proof -
  have "\<forall>j. (2::nat) < j \<and> j < length [''a'', ''b'', ''a''] \<longrightarrow> [''a'', ''b'', ''a''] ! j \<noteq> ''a''"
    by simp
  from CsvToSlice_last_duplicate_wins [OF ReadAll_duplicate _ _ this]
  show ?thesis by simp
qed

text \<open>
  Claim C8. After any number \<open>k\<close> of waits, request \<open>k\<close> is the last one of the run in each
  of three cases: the transport fails, and its error is returned; the response is a 503
  without a numeric \<^verbatim>\<open>estimated_time\<close>; the status is neither 200 nor 503, and the error
  carries the status line and the whole response body. On the 503 the error carries the
  status line and an empty body, since the body was read before.
\<close>

theorem ConnectAIModel_fails_without_retry:
  assumes "json_Marshal env payload = Inr data"
    and "\<forall>n<k. \<exists>resp. RoundTrip env n (wire data token n) = Inr resp \<and>
           warming_up env resp (ts n)"
    and "k < maxRetries"
  shows
    "(RoundTrip env k (wire data token k) = Inl err \<longrightarrow>
        ConnectAIModel env payload token =
          (Inl err,
           concat (map (\<lambda>n. attempt_events env (wire data token n) (ts n)) [0..<k]) @
           [Issued (wire data token k)])) \<and>
     (RoundTrip env k (wire data token k) = Inr resp \<and>
      StatusCode resp = StatusServiceUnavailable \<and> fst (estimated_time env resp) = None \<longrightarrow>
        ConnectAIModel env payload token =
          (Inl (StatusError (Status resp) []),
           concat (map (\<lambda>n. attempt_events env (wire data token n) (ts n)) [0..<k]) @
           [Issued (wire data token k)])) \<and>
     (RoundTrip env k (wire data token k) = Inr resp \<and>
      StatusCode resp \<noteq> StatusOK \<and> StatusCode resp \<noteq> StatusServiceUnavailable \<longrightarrow>
        ConnectAIModel env payload token =
          (Inl (StatusError (Status resp) (fst (io_ReadAll (Body resp)))),
           concat (map (\<lambda>n. attempt_events env (wire data token n) (ts n)) [0..<k]) @
           [Issued (wire data token k)]))"
proof -
  let ?pre = "concat (map (\<lambda>n. attempt_events env (wire data token n) (ts n)) [0..<k])"
  have start: "ConnectAIModel env payload token =
                 retry_loop env k (request_after data token k) ?pre"
    using retry_loop_warm [of 0 k env data token ts "[]"] assms(2,3)
    by (simp add: ConnectAIModel_start [OF assms(1)])
  have none: "fst (estimated_time env resp) = None"
    if "StatusCode resp \<noteq> StatusServiceUnavailable"
    using that by (simp add: estimated_time_def)
  show ?thesis
    using retry_loop_transport_error [OF assms(3), of env data token err ?pre]
      retry_loop_terminal_status [OF assms(3), of env data token resp ?pre]
      none StatusOK_neq
    by (auto simp: start)
qed

theorem ConnectAIModel_fails_without_retry_witness:
  "ConnectAIModel (example_env (warming_then (Inl (TransportError ''connection refused''))))
       example_payload ''hf_token'' =
     (Inl (TransportError ''connection refused''),
      concat (map (\<lambda>n. attempt_events
                (example_env (warming_then (Inl (TransportError ''connection refused''))))
                (wire example_data ''hf_token'' n) (1 / 2)) [0..<1]) @
      [Issued (wire example_data ''hf_token'' 1)]) \<and>
   fst (ConnectAIModel
       (example_env (warming_then (Inr (response 503 ''503 Service Unavailable'' busy_body))))
       example_payload ''hf_token'') =
     Inl (StatusError ''503 Service Unavailable'' []) \<and>
   fst (ConnectAIModel
       (example_env (warming_then (Inr (response 403 ''403 Forbidden'' forbidden_body))))
       example_payload ''hf_token'') =
     Inl (StatusError ''403 Forbidden'' forbidden_body)"
proof -
  let ?e1 = "example_env (warming_then (Inl (TransportError ''connection refused'')))"
  let ?r2 = "response 503 ''503 Service Unavailable'' busy_body"
  let ?e2 = "example_env (warming_then (Inr ?r2))"
  let ?r3 = "response 403 ''403 Forbidden'' forbidden_body"
  let ?e3 = "example_env (warming_then (Inr ?r3))"
  have none2: "StatusCode ?r2 = StatusServiceUnavailable \<and> fst (estimated_time ?e2 ?r2) = None"
    by (simp add: estimated_time_def response_def example_env_def io_ReadAll_def NewBuffer_def
        StatusServiceUnavailable_def busy_body_def warm_body_def quoted_def)
  have st3: "StatusCode ?r3 \<noteq> StatusOK \<and> StatusCode ?r3 \<noteq> StatusServiceUnavailable"
    by (simp add: response_def StatusOK_def StatusServiceUnavailable_def)
  have body3: "fst (io_ReadAll (Body ?r3)) = forbidden_body"
    by (simp add: response_def io_ReadAll_def NewBuffer_def)
  have a: "ConnectAIModel ?e1 example_payload ''hf_token'' =
     (Inl (TransportError ''connection refused''),
      concat (map (\<lambda>n. attempt_events ?e1 (wire example_data ''hf_token'' n) (1 / 2)) [0..<1]) @
      [Issued (wire example_data ''hf_token'' 1)])"
    using ConnectAIModel_fails_without_retry [OF example_Marshal example_first_warming
        one_less_maxRetries, of "Inl (TransportError ''connection refused'')" "''hf_token''"
        "TransportError ''connection refused''"]
      example_then [of "Inl (TransportError ''connection refused'')"]
    by blast
  have b: "fst (ConnectAIModel ?e2 example_payload ''hf_token'') =
             Inl (StatusError (Status ?r2) [])"
    using ConnectAIModel_fails_without_retry [OF example_Marshal example_first_warming
        one_less_maxRetries, of "Inr ?r2" "''hf_token''" _ ?r2]
      example_then [of "Inr ?r2"] none2
    by simp
  have c: "fst (ConnectAIModel ?e3 example_payload ''hf_token'') =
             Inl (StatusError (Status ?r3) (fst (io_ReadAll (Body ?r3))))"
    using ConnectAIModel_fails_without_retry [OF example_Marshal example_first_warming
        one_less_maxRetries, of "Inr ?r3" "''hf_token''" _ ?r3]
      example_then [of "Inr ?r3"] st3
    by simp
  from a b c body3 show ?thesis by (simp add: response_def)
qed

text \<open>
  Claim C9 as stated fails on a query typed in Latin-1, \<^verbatim>\<open>caf\<close> and the byte E9:
  \<^verbatim>\<open>json.Marshal\<close> writes the byte as
  the escape of U+FFFD, and decoding the request body gives back \<^verbatim>\<open>caf\<close> and the three
  bytes of U+FFFD: the query is not reproduced.
\<close>

theorem json_roundtrip_counterexample:
  "json_Unmarshal_Inputs (json_Marshal_Inputs latin1_payload) =
     Some \<lparr>Table = Map.empty, Query = ''caf'' @ [CHR 0xEF, CHR 0xBF, CHR 0xBD]\<rparr> \<and>
   Query latin1_payload \<noteq> ''caf'' @ [CHR 0xEF, CHR 0xBF, CHR 0xBD]"
proof -
  have e: "escapeByte CHR ''c'' = ''c''" "escapeByte CHR ''a'' = ''a''" "escapeByte CHR ''f'' = ''f''"
    by (simp_all add: escapeByte_def htmlSafe_def byte_def Quote_def BS_def)
  have lt: "byte CHR ''c'' < 0x80" "byte CHR ''a'' < 0x80" "byte CHR ''f'' < 0x80"
    by (simp_all add: byte_def)
  have u: "unquote (''caf'' @ [BS] @ ''ufffd'' @ [Quote] @ ''}'') [] =
             unquote ([BS] @ ''ufffd'' @ [Quote] @ ''}'') ''caf''"
    using unquote_escapeByte [OF lt(1), of "''af'' @ [BS] @ ''ufffd'' @ [Quote] @ ''}''" "[]"]
      unquote_escapeByte [OF lt(2), of "''f'' @ [BS] @ ''ufffd'' @ [Quote] @ ''}''" "''c''"]
      unquote_escapeByte [OF lt(3), of "[BS] @ ''ufffd'' @ [Quote] @ ''}''" "''ca''"]
    by (simp add: e)
  have "unquote ([BS] @ ''ufffd'' @ [Quote] @ ''}'') ''caf'' =
          Some (''caf'' @ [CHR 0xEF, CHR 0xBF, CHR 0xBD], ''}'')"
    by (subst unquote_ufffd) (simp add: unquote.simps [of "Quote # _"])
  with u have d: "decodeString (encodeString (''caf'' @ [CHR 0xE9]) @ ''}'') =
             Some (''caf'' @ [CHR 0xEF, CHR 0xBF, CHR 0xBD], ''}'')"
    unfolding latin1_wire decodeString_def by simp
  have "json_Unmarshal_Inputs (json_Marshal_Inputs latin1_payload) =
          Some \<lparr>Table = Map.empty, Query = ''caf'' @ [CHR 0xEF, CHR 0xBF, CHR 0xBD]\<rparr>"
    unfolding json_Marshal_Inputs_def latin1_payload_def Inputs.simps
    by (rule json_Unmarshal_Marshal_shape [OF _ _ d]) simp_all
  then show ?thesis by (simp add: latin1_payload_def)
qed

text \<open>
  Claim C9, amended. For every finite table and query string in which every column
  name, every cell and the query are valid UTF-8, serializing the payload and decoding
  the request body gives back the same table and the same query.
\<close>

theorem json_roundtrip_valid_utf8:
  assumes "finite (dom (Table payload))"
    and "\<forall>k\<in>dom (Table payload). ValidString k"
    and "\<forall>vs\<in>ran (Table payload). \<forall>x\<in>set vs. ValidString x"
    and "ValidString (Query payload)"
  shows "json_Unmarshal_Inputs (json_Marshal_Inputs payload) = Some payload"
proof -
  have cellsv: "\<forall>k\<in>dom (Table payload). ValidString k \<and>
                   (\<forall>x\<in>set (cells (Table payload) k). ValidString x)"
    using assms(2,3) by (auto simp: cells_def ran_def split: option.splits)
  have "json_Unmarshal_Inputs (json_Marshal_Inputs payload) =
          Some \<lparr>Table = Table payload, Query = Query payload\<rparr>"
    unfolding json_Marshal_Inputs_def
    by (rule json_Unmarshal_Marshal_shape [OF assms(1) cellsv])
       (rule decodeString_encodeString [OF assms(4)])
  then show ?thesis by simp
qed

theorem json_roundtrip_valid_utf8_witness:
  "json_Marshal_Inputs example_payload = example_data \<and>
   json_Unmarshal_Inputs example_data = Some example_payload"
  using json_roundtrip_valid_utf8 [OF example_valid] example_wire_text by simp

text \<open>
  Claim C10. Whenever \<^verbatim>\<open>CsvToSlice\<close> returns a table, every column of it has the same
  length: the number of records read minus one.
\<close>

theorem CsvToSlice_columns_same_length:
  assumes "CsvToSlice data = Inr t"
  shows "\<exists>records. ReadAll (NewReader data) = Inr records \<and> records \<noteq> [] \<and>
           (\<forall>col vs. t col = Some vs \<longrightarrow> length vs = length records - 1)"
proof -
  from assms obtain H rows where r: "ReadAll (NewReader data) = Inr (H # rows)"
    and t: "t = fill_columns H rows"
    by (auto simp: CsvToSlice_def Let_def neq_Nil_conv drop_Suc split: sum.splits if_splits)
  have "length vs = length rows" if some: "t col = Some vs" for col vs
  proof -
    from fill_columns_Some [OF some [unfolded t]] obtain i where
      i: "i < length H" "vs = column i rows" by blast
    with ReadAll_uniform [OF r] have "column i rows = map (\<lambda>record. record ! i) rows"
      by (intro column_rect) simp
    with i show ?thesis by simp
  qed
  with r show ?thesis by simp
qed

theorem CsvToSlice_columns_same_length_witness:
  "\<exists>t. CsvToSlice duplicate_csv = Inr t \<and>
     (\<forall>col vs. t col = Some vs \<longrightarrow> length vs = 2)"
proof -
  have t: "CsvToSlice duplicate_csv = Inr (fill_columns [''a'', ''b'', ''a''] [[''1'', ''2'', ''3''], [''4'', ''5'', ''6'']])"
    by (simp add: CsvToSlice_def ReadAll_duplicate)
  from CsvToSlice_columns_same_length [OF t] show ?thesis
    by (simp add: t ReadAll_duplicate)
qed

end
